theory Spec2Isabelle
  imports Main "HOL-Library.Word" "HOL-Library.List_Lexorder" "HOL-Library.Char_ord"
begin

unbundle bit_operations_syntax

section \<open>Bytes, slices and big-endian integers\<close>

text \<open>
  The client is written in Go. A \<^verbatim>\<open>[]byte\<close> is modelled as a list of 8-bit words, a
  \<^verbatim>\<open>uint32\<close> as a 32-bit word and a \<^verbatim>\<open>uint16\<close> as a 16-bit word, so that every
  conversion that narrows (\<^verbatim>\<open>uint32(n)\<close>, \<^verbatim>\<open>byte(n)\<close>) wraps as it does in Go. Go's
  \<^verbatim>\<open>int\<close> is taken at its 64-bit width; the lengths and counters that are held in it
  are modelled as mathematical integers, and the one product that could leave the 64-bit
  range (the start offset of a piece) has its wrap-around written out.
\<close>

type_synonym byte = "8 word"
type_synonym uint16 = "16 word"
type_synonym uint32 = "32 word"

text \<open>
  Every failure of the source is a value: the errors returned by the codecs, the two
  errors of \<^verbatim>\<open>io.ReadFull\<close>, a failed write, and a run-time panic (index or slice out
  of range, nil dereference, negative length given to \<^verbatim>\<open>make\<close>).
\<close>

datatype error =
    ErrEOF
  | ErrUnexpectedEOF
  | ErrWrite
  | ErrNotPiece
  | ErrPayloadTooShort
  | ErrIndexMismatch
  | ErrBeginBeyondBuffer
  | ErrDataTooLarge
  | ErrNotHave
  | ErrHavePayloadLength
  | ErrMalformedPeers
  | ErrPstrLenZero
  | ErrUrlParse
  | Panic

text \<open>\<^verbatim>\<open>s[lo:hi]\<close> on a slice whose bounds have been checked.\<close>

definition subslice :: "'a list \<Rightarrow> nat \<Rightarrow> nat \<Rightarrow> 'a list" where
  "subslice s lo hi = take (hi - lo) (drop lo s)"

text \<open>
  The builtin \<^verbatim>\<open>copy(dst, src)\<close>: it overwrites the first
  \<open>min (len dst) (len src)\<close> elements of \<open>dst\<close> and returns that number.
\<close>

definition go_copy :: "'a list \<Rightarrow> 'a list \<Rightarrow> 'a list \<times> nat" where
  "go_copy dst src =
     (let n = min (length dst) (length src) in (take n src @ drop n dst, n))"

text \<open>\<^verbatim>\<open>copy(buf[off:], src)\<close> seen from \<open>buf\<close>, for \<open>off \<le> len buf\<close>.\<close>

definition copy_at :: "'a list \<Rightarrow> nat \<Rightarrow> 'a list \<Rightarrow> 'a list \<times> nat" where
  "copy_at buf off src =
     (case go_copy (drop off buf) src of (tl', n) \<Rightarrow> (take off buf @ tl', n))"

text \<open>\<^verbatim>\<open>binary.BigEndian.PutUint32\<close> and \<^verbatim>\<open>Uint32\<close>, \<^verbatim>\<open>Uint16\<close>.\<close>

definition be_bytes32 :: "uint32 \<Rightarrow> byte list" where
  "be_bytes32 v = [ucast (drop_bit 24 v), ucast (drop_bit 16 v), ucast (drop_bit 8 v), ucast v]"

definition be_uint32 :: "byte list \<Rightarrow> uint32" where
  "be_uint32 b =
     ucast (b ! 3) OR push_bit 8 (ucast (b ! 2)) OR push_bit 16 (ucast (b ! 1))
       OR push_bit 24 (ucast (b ! 0))"

definition be_uint16 :: "byte list \<Rightarrow> uint16" where
  "be_uint16 b = ucast (b ! 1) OR push_bit 8 (ucast (b ! 0))"

section \<open>Message codec (message/message.go)\<close>

type_synonym MessageId = byte

definition MsgChoke :: MessageId where "MsgChoke = 0"
definition MsgUnchoke :: MessageId where "MsgUnchoke = 1"
definition MsgInterested :: MessageId where "MsgInterested = 2"
definition MsgNotInterested :: MessageId where "MsgNotInterested = 3"
definition MsgHave :: MessageId where "MsgHave = 4"
definition MsgBitfield :: MessageId where "MsgBitfield = 5"
definition MsgRequest :: MessageId where "MsgRequest = 6"
definition MsgPiece :: MessageId where "MsgPiece = 7"
definition MsgCancel :: MessageId where "MsgCancel = 8"

record Message =
  Id :: MessageId
  Payload :: "byte list"

text \<open>
  A \<^verbatim>\<open>*Message\<close> is a \<open>Message option\<close>: \<open>None\<close> is the nil pointer, which the codec
  reads and writes as the keep-alive.

  \<^verbatim>\<open>Serialize\<close>: the length is narrowed to \<^verbatim>\<open>uint32\<close> and the buffer size
  \<^verbatim>\<open>4+length\<close> is computed in \<^verbatim>\<open>uint32\<close>. \<^verbatim>\<open>buf[:4]\<close> and \<^verbatim>\<open>buf[4]\<close> panic on a
  buffer shorter than five bytes.
\<close>

definition Serialize :: "Message option \<Rightarrow> error + byte list" where
  "Serialize msgp =
     (case msgp of
        None \<Rightarrow> Inr (replicate 4 0)
      | Some msg \<Rightarrow>
          (let length' = (word_of_nat (length (Payload msg) + 1) :: uint32);
               buf = replicate (unat (4 + length')) (0 :: byte)
           in if length buf < 4 then Inl Panic
              else let buf = be_bytes32 length' @ drop 4 buf
                   in if length buf \<le> 4 then Inl Panic
                      else let buf = buf[4 := Id msg]
                           in Inr (fst (copy_at buf 5 (Payload msg)))))"

definition FormatRequestMsg :: "int \<Rightarrow> int \<Rightarrow> int \<Rightarrow> Message option" where
  "FormatRequestMsg index begin length' =
     (let payload = replicate 12 (0 :: byte);
          payload = be_bytes32 (word_of_int index) @ drop 4 payload;
          payload = take 4 payload @ be_bytes32 (word_of_int begin) @ drop 8 payload;
          payload = take 8 payload @ be_bytes32 (word_of_int length')
      in Some \<lparr>Id = MsgRequest, Payload = payload\<rparr>)"

definition FormatHave :: "int \<Rightarrow> Message option" where
  "FormatHave index = Some \<lparr>Id = MsgHave, Payload = be_bytes32 (word_of_int index)\<rparr>"

text \<open>
  \<^verbatim>\<open>ParsePiece\<close> writes into the caller's buffer, so the model returns the buffer as
  it is after the call together with the pair \<^verbatim>\<open>(int, error)\<close>. Dereferencing a nil
  message panics.
\<close>

definition ParsePiece :: "int \<Rightarrow> byte list \<Rightarrow> Message option \<Rightarrow> byte list \<times> (error + int)" where
  "ParsePiece index dataBuf msgp =
     (case msgp of
        None \<Rightarrow> (dataBuf, Inl Panic)
      | Some msg \<Rightarrow>
          if Id msg \<noteq> MsgPiece then (dataBuf, Inl ErrNotPiece)
          else if \<not> (length (Payload msg) \<ge> 8) then (dataBuf, Inl ErrPayloadTooShort)
          else
            let parsedIndex = uint (be_uint32 (subslice (Payload msg) 0 4)) in
            if parsedIndex \<noteq> index then (dataBuf, Inl ErrIndexMismatch)
            else
              let dataBufLen = int (length dataBuf);
                  begin = uint (be_uint32 (subslice (Payload msg) 4 8)) in
              if begin \<ge> dataBufLen then (dataBuf, Inl ErrBeginBeyondBuffer)
              else
                let data = drop 8 (Payload msg);
                    dataLen = int (length data) in
                if begin + dataLen > dataBufLen then (dataBuf, Inl ErrDataTooLarge)
                else (fst (copy_at dataBuf (nat begin) data), Inr dataLen))"

definition ParseHave :: "Message option \<Rightarrow> error + int" where
  "ParseHave msgp =
     (case msgp of
        None \<Rightarrow> Inl Panic
      | Some msg \<Rightarrow>
          if Id msg \<noteq> MsgHave then Inl ErrNotHave
          else if length (Payload msg) \<noteq> 4 then Inl ErrHavePayloadLength
          else Inr (uint (be_uint32 (Payload msg))))"

text \<open>
  An \<^verbatim>\<open>io.Reader\<close> is the list of bytes it will still deliver; a reader that runs dry
  (the peer closed the connection or a deadline passed) fails the read.
  \<^verbatim>\<open>io.ReadFull\<close> returns \<^verbatim>\<open>EOF\<close> when nothing could be read and
  \<^verbatim>\<open>ErrUnexpectedEOF\<close> after a partial read; either way the bytes are consumed.
\<close>

definition ReadFull :: "byte list \<Rightarrow> nat \<Rightarrow> (error + byte list) \<times> byte list" where
  "ReadFull reader n =
     (if n \<le> length reader then (Inr (take n reader), drop n reader)
      else if reader = [] then (Inl ErrEOF, [])
      else (Inl ErrUnexpectedEOF, []))"

definition Read :: "byte list \<Rightarrow> (error + Message option) \<times> byte list" where
  "Read reader =
     (case ReadFull reader 4 of
        (Inl err, reader) \<Rightarrow> (Inl err, reader)
      | (Inr payloadLenBuf, reader) \<Rightarrow>
          let payloadLen = be_uint32 payloadLenBuf in
          if payloadLen = 0 then (Inr None, reader)
          else
            (case ReadFull reader (unat payloadLen) of
               (Inl err, reader) \<Rightarrow> (Inl err, reader)
             | (Inr msgBuf, reader) \<Rightarrow>
                 (Inr (Some \<lparr>Id = msgBuf ! 0, Payload = drop 1 msgBuf\<rparr>), reader)))"

section \<open>Bitfield (bitfield/bitfield.go)\<close>

text \<open>
  Go's \<^verbatim>\<open>/\<close> and \<^verbatim>\<open>%\<close> on \<^verbatim>\<open>int\<close> truncate towards zero, so for a negative
  index the remainder is negative or zero and the quotient of \<open>-7 .. -1\<close> by 8 is 0.
\<close>

definition go_quo :: "int \<Rightarrow> int \<Rightarrow> int" where
  "go_quo a b = sgn a * sgn b * (\<bar>a\<bar> div \<bar>b\<bar>)"

definition go_rem :: "int \<Rightarrow> int \<Rightarrow> int" where
  "go_rem a b = sgn a * (\<bar>a\<bar> mod \<bar>b\<bar>)"

text \<open>
  A \<^verbatim>\<open>Bitfield\<close> is a \<^verbatim>\<open>[]byte\<close>. The shift count \<^verbatim>\<open>7 - offset\<close> lies between 0
  and 14, so the shift never panics; a byte shifted by eight or more is zero, and so is
  the byte-typed constant \<^verbatim>\<open>1\<close> shifted left by eight or more.
\<close>

definition HasPiece :: "byte list \<Rightarrow> int \<Rightarrow> bool" where
  "HasPiece bf index =
     (let byteIndex = go_quo index 8;
          offset = go_rem index 8
      in if byteIndex < 0 \<or> byteIndex \<ge> int (length bf) then False
         else let bitValue = drop_bit (nat (7 - offset)) (bf ! nat byteIndex)
              in bitValue AND 1 = 1)"

definition SetPiece :: "byte list \<Rightarrow> int \<Rightarrow> byte list" where
  "SetPiece bf index =
     (let byteIndex = go_quo index 8;
          offset = go_rem index 8
      in if byteIndex < 0 \<or> byteIndex \<ge> int (length bf) then bf
         else bf[nat byteIndex := (bf ! nat byteIndex) OR push_bit (nat (7 - offset)) 1])"

section \<open>Handshake codec (handshake/handshake.go)\<close>

text \<open>
  A Go \<^verbatim>\<open>string\<close> is a sequence of bytes; \<^verbatim>\<open>[]byte(s)\<close> and \<^verbatim>\<open>string(b)\<close> convert
  between the two without changing a byte.
\<close>

definition bytes_of_string :: "string \<Rightarrow> byte list" where
  "bytes_of_string s = map (\<lambda>c. word_of_nat (of_char c)) s"

definition string_of_bytes :: "byte list \<Rightarrow> string" where
  "string_of_bytes b = map (\<lambda>w. char_of (unat w)) b"

text \<open>
  Modelled from the spec: \<^verbatim>\<open>common.Sha1Hash\<close> is declared in a package that is not
  among the sources; the spec and the tests give it as an array of 20 bytes. It is a
  list of bytes here, and \<open>is_Sha1Hash\<close> says that a list has the array's length.
\<close>

type_synonym Sha1Hash = "byte list"

definition is_Sha1Hash :: "byte list \<Rightarrow> bool" where
  "is_Sha1Hash h = (length h = 20)"

record Handshake =
  Pstr :: string
  InfoHash :: Sha1Hash
  PeerId :: Sha1Hash

definition Handshake_New :: "Sha1Hash \<Rightarrow> Sha1Hash \<Rightarrow> Handshake" where
  "Handshake_New infoHash peerId =
     \<lparr>Pstr = ''BitTorrent protocol'', InfoHash = infoHash, PeerId = peerId\<rparr>"

definition Handshake_Serialize :: "Handshake \<Rightarrow> byte list" where
  "Handshake_Serialize hs =
     (let bufLen = length (Pstr hs) + 49;
          buf = replicate bufLen (0 :: byte);
          buf = buf[0 := word_of_nat (length (Pstr hs))];
          offset = 1;
          (buf, n) = copy_at buf offset (bytes_of_string (Pstr hs));
          offset = offset + n;
          reservedBytes = replicate 8 (0 :: byte);
          (buf, n) = copy_at buf offset reservedBytes;
          offset = offset + n;
          (buf, n) = copy_at buf offset (InfoHash hs);
          offset = offset + n;
          (buf, n) = copy_at buf offset (PeerId hs)
      in buf)"

definition Handshake_Read :: "byte list \<Rightarrow> (error + Handshake) \<times> byte list" where
  "Handshake_Read reader =
     (case ReadFull reader 1 of
        (Inl err, reader) \<Rightarrow> (Inl err, reader)
      | (Inr rawProtocolIdLen, reader) \<Rightarrow>
          let protocolIdLength = unat (rawProtocolIdLen ! 0) in
          if protocolIdLength = 0 then (Inl ErrPstrLenZero, reader)
          else
            (case ReadFull reader (48 + protocolIdLength) of
               (Inl err, reader) \<Rightarrow> (Inl err, reader)
             | (Inr handshakeBuf, reader) \<Rightarrow>
                 let protocolIdStr = string_of_bytes (subslice handshakeBuf 0 protocolIdLength);
                     offset = protocolIdLength + 8;
                     (infoHash, n) = go_copy (replicate 20 0) (subslice handshakeBuf offset (offset + 20));
                     offset = offset + n;
                     (peerId, n) = go_copy (replicate 20 0) (subslice handshakeBuf offset (offset + 20))
                 in (Inr \<lparr>Pstr = protocolIdStr, InfoHash = infoHash, PeerId = peerId\<rparr>, reader)))"

section \<open>Compact peer list (peers/peers.go)\<close>

record Peer =
  IP :: "byte list"
  Port :: uint16

text \<open>
  The loop \<^verbatim>\<open>for i := 0; i != numPeers; i++\<close> over the subslice made with \<open>numPeers\<close>
  zero peers. Indexing \<^verbatim>\<open>peers[i]\<close> or slicing \<^verbatim>\<open>peersBin\<close> out of range panics.
\<close>

definition zero_Peer :: Peer where
  "zero_Peer = \<lparr>IP = [], Port = 0\<rparr>"

function Unmarshal_loop :: "byte list \<Rightarrow> nat \<Rightarrow> nat \<Rightarrow> Peer list \<Rightarrow> error + Peer list" where
  "Unmarshal_loop peersBin numPeers i peers =
     (if i \<noteq> numPeers then
        (let offset = i * 6 in
         if length peers \<le> i \<or> length peersBin < offset + 4 then Inl Panic
         else
           let peers = peers[i := (peers ! i)\<lparr>IP := subslice peersBin offset (offset + 4)\<rparr>];
               offset = offset + 4
           in if length peersBin < offset + 2 then Inl Panic
              else
                let peers = peers[i := (peers ! i)\<lparr>Port := be_uint16 (subslice peersBin offset (offset + 2))\<rparr>]
                in Unmarshal_loop peersBin numPeers (i + 1) peers)
      else Inr peers)"
  by pat_completeness auto
termination
  by (relation "measure (\<lambda>(peersBin, numPeers, i, peers). length peers - i)") auto

declare Unmarshal_loop.simps [simp del]

definition Unmarshal :: "byte list \<Rightarrow> error + Peer list" where
  "Unmarshal peersBin =
     (let peersSize = 6;
          peersBinSize = length peersBin;
          numPeers = peersBinSize div peersSize
      in if peersBinSize mod peersSize \<noteq> 0 then Inl ErrMalformedPeers
         else Unmarshal_loop peersBin numPeers 0 (replicate numPeers zero_Peer))"

section \<open>Peer session (client/client.go)\<close>

text \<open>
  The TCP connection of a session: the bytes the peer will still deliver, the bytes
  written so far, and how many more writes succeed before the connection fails
  (\<open>None\<close>: every write succeeds). Deadlines are not modelled; a read that would wait
  past its deadline is a read from a connection that has run dry.
\<close>

record net_Conn =
  inbound :: "byte list"
  outbound :: "byte list"
  writes_left :: "nat option"

definition Conn_Write :: "net_Conn \<Rightarrow> byte list \<Rightarrow> error option \<times> net_Conn" where
  "Conn_Write conn b =
     (case writes_left conn of
        None \<Rightarrow> (None, conn\<lparr>outbound := outbound conn @ b\<rparr>)
      | Some 0 \<Rightarrow> (Some ErrWrite, conn)
      | Some (Suc k) \<Rightarrow> (None, conn\<lparr>outbound := outbound conn @ b, writes_left := Some k\<rparr>))"

record Client =
  Conn :: net_Conn
  Choked :: bool
  Bitfield :: "byte list"
  Peer :: Peer
  InfoHash_cl :: Sha1Hash
  PeerId_cl :: Sha1Hash

definition Client_Read :: "Client \<Rightarrow> (error + Message option) \<times> Client" where
  "Client_Read client =
     (case Read (inbound (Conn client)) of
        (r, rest) \<Rightarrow> (r, client\<lparr>Conn := (Conn client)\<lparr>inbound := rest\<rparr>\<rparr>))"

definition SendRequest :: "Client \<Rightarrow> int \<Rightarrow> int \<Rightarrow> int \<Rightarrow> error option \<times> Client" where
  "SendRequest client index begin length' =
     (let req = FormatRequestMsg index begin length' in
      case Serialize req of
        Inl err \<Rightarrow> (Some err, client)
      | Inr bytes \<Rightarrow>
          (case Conn_Write (Conn client) bytes of
             (err, conn) \<Rightarrow> (err, client\<lparr>Conn := conn\<rparr>)))"

section \<open>Piece downloader (p2p)\<close>

definition MaxBlockSize :: int where "MaxBlockSize = 16384"
definition MaxBacklog :: int where "MaxBacklog = 8"

text \<open>
  Lengths, offsets and counters are Go \<^verbatim>\<open>int\<close>s, 64 bits wide. The counters of a
  download attempt are modelled as mathematical integers: they stay between the length
  of the piece buffer and minus the number of messages read, far from the limits of 64
  bits for any buffer and connection that can exist. The offsets of a piece, which come
  from a product, are modelled with the wrap-around written out (\<open>int64\<close> below).
\<close>

record Torrent =
  Name :: string
  Length :: int
  Peers :: "Peer list"
  PeerId_t :: Sha1Hash
  InfoHash_t :: Sha1Hash
  PieceLength :: int
  PiecesHashes :: "Sha1Hash list"

record PieceWork =
  Index_pw :: int
  Hash_pw :: Sha1Hash
  Length_pw :: int

record PieceProgress =
  Index :: int
  Client :: Client
  Buf :: "byte list"
  Downloaded :: int
  Requested :: int
  Backlog :: int

text \<open>
  \<^verbatim>\<open>ReadMessage\<close> mutates the progress record and, through its pointer, the client; the
  model returns the record as it is after the call. The bitfield of a \<^verbatim>\<open>have\<close> message
  and the buffer of a \<^verbatim>\<open>piece\<close> message are written in place.
\<close>

definition ReadMessage :: "PieceProgress \<Rightarrow> error option \<times> PieceProgress" where
  "ReadMessage state =
     (case Client_Read (Client state) of
        (r, client) \<Rightarrow>
          let state = state\<lparr>Client := client\<rparr> in
          (case r of
             Inl err \<Rightarrow> (Some err, state)
           | Inr None \<Rightarrow> (None, state)
           | Inr (Some msg) \<Rightarrow>
               if Id msg = MsgChoke then
                 (None, state\<lparr>Client := (Client state)\<lparr>Choked := True\<rparr>\<rparr>)
               else if Id msg = MsgUnchoke then
                 (None, state\<lparr>Client := (Client state)\<lparr>Choked := False\<rparr>\<rparr>)
               else if Id msg = MsgHave then
                 (case ParseHave (Some msg) of
                    Inl err \<Rightarrow> (Some err, state)
                  | Inr index \<Rightarrow>
                      (None, state\<lparr>Client := (Client state)
                               \<lparr>Bitfield := SetPiece (Bitfield (Client state)) index\<rparr>\<rparr>))
               else if Id msg = MsgPiece then
                 (case ParsePiece (Index state) (Buf state) (Some msg) of
                    (buf, Inl err) \<Rightarrow> (Some err, state\<lparr>Buf := buf\<rparr>)
                  | (buf, Inr pieceSize) \<Rightarrow>
                      (None, state\<lparr>Buf := buf,
                                    Downloaded := Downloaded state + pieceSize,
                                    Backlog := Backlog state - 1\<rparr>))
               else (None, state)))"

text \<open>
  The start offset of a piece is a product of two \<^verbatim>\<open>int\<close>s; \<open>int64\<close> is the value a
  64-bit signed integer keeps of a mathematical one.
\<close>

definition int64 :: "int \<Rightarrow> int" where
  "int64 k = (k + 2 ^ 63) mod 2 ^ 64 - 2 ^ 63"

definition calculateBoundsForPiece :: "Torrent \<Rightarrow> int \<Rightarrow> int \<times> int" where
  "calculateBoundsForPiece torrent index =
     (let start = int64 (index * PieceLength torrent);
          end = int64 (start + PieceLength torrent);
          end = (if end > Length torrent then Length torrent else end)
      in (start, end))"

definition calculatePieceSize :: "Torrent \<Rightarrow> int \<Rightarrow> int" where
  "calculatePieceSize torrent index =
     (case calculateBoundsForPiece torrent index of (start, end) \<Rightarrow> int64 (end - start))"

text \<open>
  The two loops of \<^verbatim>\<open>attemptDownloadPiece\<close>. Besides the error and the progress record
  they return the list of the records the loop went through, each with the step that
  produced it: a request that was written, or a message that was read and handled. The
  list is not part of the program; the invariants of a download attempt are stated on it.
\<close>

datatype step = Start | Sent | Received

type_synonym trace = "(step \<times> PieceProgress) list"

function request_loop :: "PieceWork \<Rightarrow> PieceProgress \<Rightarrow> error option \<times> PieceProgress \<times> trace" where
  "request_loop pw state =
     (if Backlog state \<noteq> MaxBacklog \<and> Requested state < Length_pw pw then
        (let blockSize = MaxBlockSize;
             remainingBytes = Length_pw pw - Requested state;
             blockSize = (if remainingBytes < blockSize then remainingBytes else blockSize)
         in case SendRequest (Client state) (Index_pw pw) (Requested state) blockSize of
              (Some err, client) \<Rightarrow> (Some err, state\<lparr>Client := client\<rparr>, [])
            | (None, client) \<Rightarrow>
                (let state = state\<lparr>Client := client,
                                    Backlog := Backlog state + 1,
                                    Requested := Requested state + blockSize\<rparr>
                 in case request_loop pw state of
                      (err, final, tr) \<Rightarrow> (err, final, (Sent, state) # tr)))
      else (None, state, []))"
  by pat_completeness auto
termination
  by (relation "measure (\<lambda>(pw, state). nat (Length_pw pw - Requested state))")
     (auto simp add: MaxBlockSize_def)

declare request_loop.simps [simp del]

function download_loop :: "PieceWork \<Rightarrow> PieceProgress \<Rightarrow> error option \<times> PieceProgress \<times> trace" where
  "download_loop pw state =
     (if Downloaded state < Length_pw pw then
        (case (if \<not> Choked (Client state) then request_loop pw state else (None, state, [])) of
           (Some err, state, tr1) \<Rightarrow> (Some err, state, tr1)
         | (None, state, tr1) \<Rightarrow>
             (case ReadMessage state of
                (Some err, state) \<Rightarrow> (Some err, state, tr1)
              | (None, state) \<Rightarrow>
                  (case download_loop pw state of
                     (err, final, tr2) \<Rightarrow> (err, final, tr1 @ (Received, state) # tr2))))
      else (None, state, []))"
  by pat_completeness auto
termination
proof (relation "measure (\<lambda>(pw, state). length (inbound (Conn (Client state))))")
  show "wf (measure (\<lambda>(pw, state). length (inbound (Conn (Client state)))))"
    by simp
next
  fix pw state x y xa ya xb yb
  assume "Downloaded state < Length_pw pw"
    and run: "(x, y) = (if \<not> Choked (Client state) then request_loop pw state
                        else (None, state, []))"
    and "x = None" and y: "(xa, ya) = y" and rd: "(xb, yb) = ReadMessage xa"
    and ok: "xb = None"
  have keep: "inbound (Conn (Client (fst (snd (request_loop q s))))) = inbound (Conn (Client s))"
    for q s
  proof (induction "nat (Length_pw q - Requested s)" arbitrary: s rule: less_induct)
    case less
    show ?case
    proof (cases "Backlog s \<noteq> MaxBacklog \<and> Requested s < Length_pw q")
      case False
      show ?thesis by (subst request_loop.simps) (simp only: False if_False fst_conv snd_conv)
    next
      case True
      define bs where "bs = (if Length_pw q - Requested s < MaxBlockSize
                             then Length_pw q - Requested s else MaxBlockSize)"
      have pos: "0 < bs" using True by (simp add: bs_def MaxBlockSize_def)
      obtain e c where sr: "SendRequest (Client s) (Index_pw q) (Requested s) bs = (e, c)"
        by (cases "SendRequest (Client s) (Index_pw q) (Requested s) bs") auto
      then have c: "inbound (Conn c) = inbound (Conn (Client s))"
        by (auto simp add: SendRequest_def Conn_Write_def Let_def
            split: sum.splits option.splits nat.splits)
      define s' where "s' = s\<lparr>Client := c, Backlog := Backlog s + 1, Requested := Requested s + bs\<rparr>"
      have unf: "request_loop q s =
         (case e of Some err \<Rightarrow> (Some err, s\<lparr>Client := c\<rparr>, [])
          | None \<Rightarrow> (case request_loop q s' of (err, final, tr) \<Rightarrow> (err, final, (Sent, s') # tr)))"
        apply (subst request_loop.simps)
        unfolding Let_def bs_def [symmetric]
        apply (simp only: True if_True sr prod.case)
        unfolding s'_def [symmetric]
        apply (cases e)
         apply simp_all
        done
      show ?thesis
      proof (cases e)
        case (Some err)
        then show ?thesis using c by (simp add: unf)
      next
        case None
        have "nat (Length_pw q - Requested s') < nat (Length_pw q - Requested s)"
          using True pos by (simp add: s'_def)
        then have "inbound (Conn (Client (fst (snd (request_loop q s'))))) = inbound (Conn (Client s'))"
          by (rule less)
        then show ?thesis using None c by (auto simp add: unf s'_def split: prod.splits)
      qed
    qed
  qed
  have same: "inbound (Conn (Client xa)) = inbound (Conn (Client state))"
  proof (cases "Choked (Client state)")
    case True
    then show ?thesis using run y by auto
  next
    case False
    then have "request_loop pw state = (x, xa, ya)" using run y by auto
    then show ?thesis using keep [of pw state] by simp
  qed
  have less: "length (inbound (Conn (Client yb))) < length (inbound (Conn (Client xa)))"
    using rd [symmetric] ok
    by (auto simp add: ReadMessage_def Client_Read_def Read_def ReadFull_def Let_def
        split: prod.splits sum.splits option.splits if_splits)
  show "((pw, yb), pw, state) \<in> measure (\<lambda>(pw, state). length (inbound (Conn (Client state))))"
    using same less by simp
qed

declare download_loop.simps [simp del]

definition attemptDownloadPiece ::
    "Client \<Rightarrow> PieceWork \<Rightarrow> (error + byte list) \<times> Client \<times> trace" where
  "attemptDownloadPiece torrentClient pw =
     (if Length_pw pw < 0 then (Inl Panic, torrentClient, [])
      else
        let state = \<lparr>Index = Index_pw pw, Client = torrentClient,
                     Buf = replicate (nat (Length_pw pw)) 0,
                     Downloaded = 0, Requested = 0, Backlog = 0\<rparr>
        in case download_loop pw state of
             (Some err, final, tr) \<Rightarrow> (Inl err, Client final, (Start, state) # tr)
           | (None, final, tr) \<Rightarrow> (Inr (Buf final), Client final, (Start, state) # tr))"

section \<open>Tracker URL (torrentfile/tracker.go)\<close>

record TorrentFile =
  Announce :: string
  InfoHash_tf :: Sha1Hash
  PiecesHashes_tf :: "Sha1Hash list"
  PieceLength_tf :: uint32
  Length_tf :: uint32
  Name_tf :: string

text \<open>
  Modelled from the spec: \<^verbatim>\<open>BuildTrackerUrl\<close> parses the announce URL, encodes the query
  and prints the URL with Go's \<^verbatim>\<open>net/url\<close>, and prints numbers with \<^verbatim>\<open>strconv.Itoa\<close>;
  neither package is among the sources. The spec has the query parameters URL-encoded
  in the standard form, their insertion order irrelevant, and gives one URL in full. The
  definitions below follow that: \<open>QueryEscape\<close> keeps letters, digits and \<^verbatim>\<open>- _ . ~\<close>,
  writes a space as \<^verbatim>\<open>+\<close> and every other byte as \<^verbatim>\<open>%\<close> and two upper-case hexadecimal
  digits; \<open>Values_Encode\<close> writes \<^verbatim>\<open>key=value\<close> pairs joined by \<^verbatim>\<open>&\<close> in the order of
  the sorted keys; \<open>Itoa\<close> writes a number in decimal.
\<close>

definition upperhex :: "nat \<Rightarrow> char" where
  "upperhex n = ''0123456789ABCDEF'' ! n"

definition unreserved :: "char \<Rightarrow> bool" where
  "unreserved c =
     (let n = (of_char c :: nat)
      in (97 \<le> n \<and> n \<le> 122) \<or> (65 \<le> n \<and> n \<le> 90) \<or> (48 \<le> n \<and> n \<le> 57)
         \<or> c = CHR ''-'' \<or> c = CHR ''_'' \<or> c = CHR ''.'' \<or> c = CHR ''~'')"

definition escape_char :: "char \<Rightarrow> string" where
  "escape_char c =
     (if c = CHR '' '' then ''+''
      else if unreserved c then [c]
      else [CHR ''%'', upperhex (of_char c div 16), upperhex (of_char c mod 16)])"

definition QueryEscape :: "string \<Rightarrow> string" where
  "QueryEscape s = concat (map escape_char s)"

text \<open>A \<^verbatim>\<open>url.Values\<close> literal is the list of its entries; its keys are distinct.\<close>

type_synonym Values = "(string \<times> string list) list"

definition Values_Encode :: "Values \<Rightarrow> string" where
  "Values_Encode v =
     foldl (\<lambda>buf k.
        foldl (\<lambda>buf val. (if buf \<noteq> [] then buf @ ''&'' else buf) @ QueryEscape k @ ''='' @ QueryEscape val)
          buf (case map_of v k of None \<Rightarrow> [] | Some vs \<Rightarrow> vs))
       [] (sort (map fst v))"

function decimal :: "int \<Rightarrow> string" where
  "decimal u =
     (if u < 10 then [''0123456789'' ! nat u]
      else decimal (u div 10) @ [''0123456789'' ! nat (u mod 10)])"
  by pat_completeness auto
termination
  by (relation "measure nat") auto

declare decimal.simps [simp del]

definition Itoa :: "int \<Rightarrow> string" where
  "Itoa i = (if i < 0 then CHR ''-'' # decimal (- i) else decimal i)"

text \<open>
  Modelled from the spec: of a parsed \<^verbatim>\<open>url.URL\<close> the model keeps what its printed form
  is made of: the text ahead of the query (scheme, host and path), the query, whether an
  empty query is still printed, and the text after it (the fragment). What
  \<^verbatim>\<open>url.Parse\<close> makes of a string is a parameter of \<open>BuildTrackerUrl\<close>.
\<close>

record URL =
  before_query :: string
  RawQuery :: string
  ForceQuery :: bool
  after_query :: string

definition URL_String :: "URL \<Rightarrow> string" where
  "URL_String u =
     before_query u
       @ (if ForceQuery u \<or> RawQuery u \<noteq> [] then CHR ''?'' # RawQuery u else [])
       @ after_query u"

definition BuildTrackerUrl ::
    "(string \<Rightarrow> URL option) \<Rightarrow> TorrentFile \<Rightarrow> Sha1Hash \<Rightarrow> uint16 \<Rightarrow> string \<times> error option" where
  "BuildTrackerUrl url_Parse torrFile peerId port =
     (case url_Parse (Announce torrFile) of
        None \<Rightarrow> ([], Some ErrUrlParse)
      | Some base \<Rightarrow>
          let params =
                [(''info_hash'', [string_of_bytes (InfoHash_tf torrFile)]),
                 (''peer_id'', [string_of_bytes peerId]),
                 (''port'', [Itoa (uint port)]),
                 (''uploaded'', [''0'']),
                 (''downloaded'', [''0'']),
                 (''compact'', [''1'']),
                 (''left'', [Itoa (uint (Length_tf torrFile))])];
              base = base\<lparr>RawQuery := Values_Encode params\<rparr>
          in (URL_String base, None))"

text \<open>
  Modelled from the spec: how the receiver of the URL reads its query, in the same
  standard form (\<^verbatim>\<open>url.ParseQuery\<close> and \<^verbatim>\<open>url.QueryUnescape\<close>, not among the sources):
  the query is cut at every \<^verbatim>\<open>&\<close>, each part at its first \<^verbatim>\<open>=\<close>, and key and value
  are unescaped. The result lists the pairs in the order they stand in the query, so a
  key that stood twice would be listed twice.
\<close>

definition unhex :: "char \<Rightarrow> nat option" where
  "unhex c =
     (let n = (of_char c :: nat)
      in if 48 \<le> n \<and> n \<le> 57 then Some (n - 48)
         else if 97 \<le> n \<and> n \<le> 102 then Some (n - 97 + 10)
         else if 65 \<le> n \<and> n \<le> 70 then Some (n - 65 + 10)
         else None)"

fun QueryUnescape :: "string \<Rightarrow> string option" where
  "QueryUnescape [] = Some []"
| "QueryUnescape (c # s) =
     (if c = CHR ''%'' then
        (case s of
           h # l # rest \<Rightarrow>
             (case (unhex h, unhex l) of
                (Some a, Some b) \<Rightarrow> map_option ((#) (char_of (a * 16 + b))) (QueryUnescape rest)
              | _ \<Rightarrow> None)
         | _ \<Rightarrow> None)
      else if c = CHR ''+'' then map_option ((#) (CHR '' '')) (QueryUnescape s)
      else map_option ((#) c) (QueryUnescape s))"

definition Cut :: "char \<Rightarrow> string \<Rightarrow> string \<times> string" where
  "Cut sep s = (takeWhile (\<lambda>x. x \<noteq> sep) s, drop 1 (dropWhile (\<lambda>x. x \<noteq> sep) s))"

function ParseQuery :: "string \<Rightarrow> (string \<times> string) list option" where
  "ParseQuery query =
     (if query = [] then Some []
      else
        (case Cut (CHR ''&'') query of
           (key, query) \<Rightarrow>
             if CHR '';'' \<in> set key then None
             else if key = [] then ParseQuery query
             else
               (case Cut (CHR ''='') key of
                  (key, value) \<Rightarrow>
                    (case (QueryUnescape key, QueryUnescape value) of
                       (Some key, Some value) \<Rightarrow> map_option ((#) (key, value)) (ParseQuery query)
                     | _ \<Rightarrow> None))))"
  by pat_completeness auto
termination
proof -
  have shrink: "length rest < length query"
    if "query \<noteq> []" "(key, rest) = Cut sep query" for query key rest sep
  proof -
    have "length (dropWhile (\<lambda>x. x \<noteq> sep) query) \<le> length query"
      by (rule length_dropWhile_le)
    moreover have "rest = drop 1 (dropWhile (\<lambda>x. x \<noteq> sep) query)"
      using that by (simp add: Cut_def)
    moreover have "0 < length query" using that by simp
    ultimately show ?thesis by (simp del: length_greater_0_conv)
  qed
  show ?thesis
    by (relation "measure length") (auto intro: shrink)
qed

declare ParseQuery.simps [simp del]

section \<open>Notions used in the statements, and sample inputs\<close>

text \<open>The number a byte string denotes when read big-endian.\<close>

definition be_value :: "byte list \<Rightarrow> nat" where
  "be_value bs = foldl (\<lambda>acc b. 256 * acc + unat b) 0 bs"

text \<open>The peer that the \<open>k\<close>-th group of six bytes of a compact peer list denotes.\<close>

definition peer_at :: "byte list \<Rightarrow> nat \<Rightarrow> Peer" where
  "peer_at peersBin k =
     \<lparr>IP = subslice peersBin (k * 6) (k * 6 + 4),
      Port = be_uint16 (subslice peersBin (k * 6 + 4) (k * 6 + 4 + 2))\<rparr>"

text \<open>
  What holds of the progress record throughout a download attempt, and of one entry of
  the list of steps: a request is only ever written by an unchoked session.
\<close>

definition progress_ok :: "PieceWork \<Rightarrow> PieceProgress \<Rightarrow> bool" where
  "progress_ok pw state \<longleftrightarrow>
     0 \<le> Downloaded state \<and> 0 \<le> Requested state \<and> Requested state \<le> Length_pw pw
     \<and> Backlog state \<le> MaxBacklog"

definition step_ok :: "PieceWork \<Rightarrow> step \<times> PieceProgress \<Rightarrow> bool" where
  "step_ok pw entry \<longleftrightarrow>
     progress_ok pw (snd entry) \<and> (fst entry = Sent \<longrightarrow> \<not> Choked (Client (snd entry)))"

text \<open>
  A peer that behaves: every \<^verbatim>\<open>piece\<close> message it delivers answers a request that was
  sent and has not been answered yet. Requests start at multiples of the block size
  below \<open>requested\<close> and ask for \<open>block_size\<close> bytes. \<open>solicited\<close> follows the list of
  steps; for a step that read a message it looks at the message the record before
  it had next on its connection, and keeps the offsets answered so far.
\<close>

definition block_size :: "PieceWork \<Rightarrow> int \<Rightarrow> int" where
  "block_size pw b = min MaxBlockSize (Length_pw pw - b)"

fun solicited :: "PieceWork \<Rightarrow> int list \<Rightarrow> PieceProgress \<Rightarrow> trace \<Rightarrow> bool" where
  "solicited pw answered prev [] = True"
| "solicited pw answered prev ((Received, state) # tr) =
     (case fst (Read (inbound (Conn (Client prev)))) of
        Inr (Some msg) \<Rightarrow>
          if Id msg = MsgPiece then
            (let b = int (be_value (take 4 (drop 4 (Payload msg))));
                 n = int (length (drop 8 (Payload msg)))
             in b mod MaxBlockSize = 0 \<and> b < Requested prev \<and> n = block_size pw b
                \<and> b \<notin> set answered \<and> solicited pw (b # answered) state tr)
          else solicited pw answered state tr
      | _ \<Rightarrow> solicited pw answered state tr)"
| "solicited pw answered prev ((k, state) # tr) = solicited pw answered state tr"

definition all_solicited :: "PieceWork \<Rightarrow> trace \<Rightarrow> bool" where
  "all_solicited pw tr = (case tr of [] \<Rightarrow> True | entry # rest \<Rightarrow> solicited pw [] (snd entry) rest)"

text \<open>
  The offsets requested so far, and the bookkeeping that links the counters to the
  requests sent and the blocks received from a peer that behaves.
\<close>

definition requested_blocks :: "int \<Rightarrow> int set" where
  "requested_blocks R = {b. 0 \<le> b \<and> b < R \<and> b mod MaxBlockSize = 0}"

definition accounted :: "PieceWork \<Rightarrow> int list \<Rightarrow> PieceProgress \<Rightarrow> bool" where
  "accounted pw answered s \<longleftrightarrow>
     0 \<le> Requested s \<and> Requested s \<le> Length_pw pw
     \<and> (Requested s mod MaxBlockSize = 0 \<or> Requested s = Length_pw pw)
     \<and> (\<Sum>b \<in> requested_blocks (Requested s). block_size pw b) = Requested s
     \<and> distinct answered \<and> set answered \<subseteq> requested_blocks (Requested s)
     \<and> Downloaded s = (\<Sum>b \<in> set answered. block_size pw b)
     \<and> Backlog s = int (card (requested_blocks (Requested s))) - int (length answered)"

text \<open>The counters and the choked flag of one entry of the list of steps.\<close>

definition counters :: "step \<times> PieceProgress \<Rightarrow> step \<times> int \<times> int \<times> int \<times> bool" where
  "counters entry =
     (fst entry, Downloaded (snd entry), Requested (snd entry), Backlog (snd entry),
      Choked (Client (snd entry)))"

text \<open>
  A session that is still choked and whose peer sends, unasked, a \<^verbatim>\<open>piece\<close> message
  with the four bytes of piece 0; and a session whose peer first unchokes.
\<close>

definition four_byte_piece :: PieceWork where
  "four_byte_piece = \<lparr>Index_pw = 0, Hash_pw = replicate 20 0, Length_pw = 4\<rparr>"

definition unsolicited_client :: Client where
  "unsolicited_client =
     \<lparr>Conn = \<lparr>inbound = [0, 0, 0, 13, 7, 0, 0, 0, 0, 0, 0, 0, 0, 1, 2, 3, 4],
               outbound = [], writes_left = None\<rparr>,
      Choked = True, Bitfield = [255], Peer = \<lparr>IP = [127, 0, 0, 1], Port = 6881\<rparr>,
      InfoHash_cl = replicate 20 0, PeerId_cl = replicate 20 0\<rparr>"

definition unchoking_client :: Client where
  "unchoking_client =
     \<lparr>Conn = \<lparr>inbound = [0, 0, 0, 1, 1, 0, 0, 0, 13, 7, 0, 0, 0, 0, 0, 0, 0, 0, 1, 2, 3, 4],
               outbound = [], writes_left = None\<rparr>,
      Choked = True, Bitfield = [255], Peer = \<lparr>IP = [127, 0, 0, 1], Port = 6881\<rparr>,
      InfoHash_cl = replicate 20 0, PeerId_cl = replicate 20 0\<rparr>"

text \<open>A message whose payload has \<open>2 ^ 32\<close> bytes, and a handshake whose protocol string has 256.\<close>

definition oversized_message :: Message where
  "oversized_message = \<lparr>Id = 7, Payload = replicate 4294967296 0\<rparr>"

definition long_pstr_handshake :: Handshake where
  "long_pstr_handshake =
     \<lparr>Pstr = replicate 256 (CHR ''a''), InfoHash = replicate 20 0, PeerId = replicate 20 0\<rparr>"

definition small_torrent :: Torrent where
  "small_torrent =
     \<lparr>Name = ''file'', Length = 1000, Peers = [], PeerId_t = replicate 20 0,
      InfoHash_t = replicate 20 0, PieceLength = 300,
      PiecesHashes = replicate 4 (replicate 20 0)\<rparr>"

text \<open>The tracker example of the spec, and a parser that takes a plain URL as it is.\<close>

definition debian_torrent :: TorrentFile where
  "debian_torrent =
     \<lparr>Announce = ''http://bttracker.debian.org:6969/announce'',
      InfoHash_tf = [0xD8, 0xF7, 0x39, 0xCE, 0xC3, 0x28, 0x95, 0x6C, 0xCC, 0x5B,
                     0xBF, 0x1F, 0x86, 0xD9, 0xFD, 0xCF, 0xDB, 0xA8, 0xCE, 0xB6],
      PiecesHashes_tf = [], PieceLength_tf = 262144, Length_tf = 351272960,
      Name_tf = ''debian-10.2.0-amd64-netinst.iso''\<rparr>"

definition debian_peer_id :: Sha1Hash where
  "debian_peer_id = [0, 1, 2, 3, 4, 5, 6, 7, 8, 9, 10, 11, 12, 13, 14, 15, 16, 17, 18, 19]"

definition debian_base :: URL where
  "debian_base =
     \<lparr>before_query = ''http://bttracker.debian.org:6969/announce'', RawQuery = [],
      ForceQuery = False, after_query = []\<rparr>"

definition debian_url :: string where
  "debian_url = ''http://bttracker.debian.org:6969/announce?compact=1&downloaded=0&info_hash=%D8%F79%CE%C3%28%95l%CC%5B%BF%1F%86%D9%FD%CF%DB%A8%CE%B6&left=351272960&peer_id=%00%01%02%03%04%05%06%07%08%09%0A%0B%0C%0D%0E%0F%10%11%12%13&port=6789&uploaded=0''"

definition plain_url_Parse :: "string \<Rightarrow> URL option" where
  "plain_url_Parse s = Some \<lparr>before_query = s, RawQuery = [], ForceQuery = False, after_query = []\<rparr>"

section \<open>Bytes and big-endian integers\<close>

lemma low_byte_disjoint: "(ucast (b :: byte) :: 'a :: len word) AND push_bit 8 w = 0"
  by (rule bit_word_eqI) (auto simp add: bit_simps dest: bit_imp_le_length)

lemma low_or_add: "(ucast (b :: byte) :: 'a :: len word) OR push_bit 8 w = ucast b + push_bit 8 w"
  by (simp add: disjunctive_add_eq_or low_byte_disjoint)

lemma unat_byte_less: "unat (a :: byte) < 256"
  using unsigned_less [of a, where ?'a = nat] by simp

lemma unat_be_uint16: "unat (be_uint16 [a, b]) = 256 * unat a + unat b"
proof -
  have "be_uint16 [a, b] = ucast b + push_bit 8 (ucast a)"
    by (simp add: be_uint16_def low_or_add)
  then show ?thesis using unat_byte_less [of a] unat_byte_less [of b]
    by (simp add: unat_word_ariths push_bit_eq_mult unsigned_ucast_eq take_bit_eq_mod)
qed

lemma unat_be_uint32: "unat (be_uint32 [a, b, c, d]) = 16777216 * unat a + 65536 * unat b + 256 * unat c + unat d"
proof -
  have "be_uint32 [a, b, c, d] = ucast d OR push_bit 8 (ucast c OR push_bit 8 (ucast b OR push_bit 8 (ucast a)))"
    by (simp add: be_uint32_def push_bit_or push_bit_push_bit ac_simps)
  also have "\<dots> = ucast d + push_bit 8 (ucast c + push_bit 8 (ucast b + push_bit 8 (ucast a)))"
    by (simp only: low_or_add)
  finally show ?thesis 
    using unat_byte_less [of a] unat_byte_less [of b] unat_byte_less [of c] unat_byte_less [of d]
    by (simp add: unat_word_ariths push_bit_eq_mult unsigned_ucast_eq take_bit_eq_mod)
qed

lemma subslice_4: "hi = lo + 4 \<Longrightarrow> hi \<le> length xs \<Longrightarrow> subslice xs lo hi = [xs ! lo, xs ! (lo + 1), xs ! (lo + 2), xs ! (lo + 3)]"
  unfolding subslice_def
  by (simp add: take_Suc_conv_app_nth numeral_eq_Suc add.commute)

lemma subslice_2: "hi = lo + 2 \<Longrightarrow> hi \<le> length xs \<Longrightarrow> subslice xs lo hi = [xs ! lo, xs ! (lo + 1)]"
  unfolding subslice_def
  by (simp add: take_Suc_conv_app_nth numeral_eq_Suc add.commute)

lemma uint_be_uint32_subslice:
  assumes "lo + 4 \<le> length p"
  shows "uint (be_uint32 (subslice p lo (lo + 4))) = int (be_value (take 4 (drop lo p)))"
proof -
  have s: "subslice p lo (lo + 4) = [p ! lo, p ! (lo + 1), p ! (lo + 2), p ! (lo + 3)]"
    using assms by (intro subslice_4) simp_all
  have "take 4 (drop lo p) = subslice p lo (lo + 4)" by (simp add: subslice_def)
  then have "be_value (take 4 (drop lo p)) = unat (be_uint32 (subslice p lo (lo + 4)))"
    by (simp add: s be_value_def unat_be_uint32)
  then show ?thesis by simp
qed

lemma copy_at_append:
  "off = length pre \<Longrightarrow> length src \<le> length rest \<Longrightarrow>
   copy_at (pre @ rest) off src = (pre @ src @ drop (length src) rest, length src)"
  by (simp add: copy_at_def go_copy_def Let_def min_def)

lemma copy_at_exact:
  "off + length src \<le> length buf \<Longrightarrow>
   copy_at buf off src = (take off buf @ src @ drop (off + length src) buf, length src)"
  by (auto simp add: copy_at_def go_copy_def Let_def min_def add.commute)

lemma be_uint32_be_bytes32: "be_uint32 (be_bytes32 v) = v"
proof (rule bit_word_eqI)
  fix n :: nat
  assume n: "n < LENGTH(32)"
  consider "n < 8" | "8 \<le> n" "n < 16" | "16 \<le> n" "n < 24" | "24 \<le> n" "n < 32"
    using n by fastforce
  then show "bit (be_uint32 (be_bytes32 v)) n \<longleftrightarrow> bit v n"
  proof cases
    case 1
    then show ?thesis unfolding be_uint32_def be_bytes32_def by (simp add: bit_simps)
  next
    case 2
    then show ?thesis unfolding be_uint32_def be_bytes32_def by (auto simp add: bit_simps)
  next
    case 3
    then show ?thesis unfolding be_uint32_def be_bytes32_def by (auto simp add: bit_simps)
  next
    case 4
    then show ?thesis unfolding be_uint32_def be_bytes32_def by (auto simp add: bit_simps)
  qed
qed

lemma length_be_bytes32: "length (be_bytes32 v) = 4"
  by (simp add: be_bytes32_def)

lemma go_copy_full: "length src = length dst \<Longrightarrow> go_copy dst src = (src, length src)"
  by (simp add: go_copy_def)

section \<open>Message codec\<close>

text \<open>
  C9. \<^verbatim>\<open>FormatRequestMsg(4, 567, 4321)\<close>, serialized with its length prefix, is the
  seventeen bytes \<^verbatim>\<open>00 00 00 0D 06 00 00 00 04 00 00 02 37 00 00 10 E1\<close>.
\<close>

theorem FormatRequest_frame:
  "Serialize (FormatRequestMsg 4 567 4321) =
     Inr [0x00, 0x00, 0x00, 0x0D, 0x06, 0x00, 0x00, 0x00, 0x04,
          0x00, 0x00, 0x02, 0x37, 0x00, 0x00, 0x10, 0xE1]"
  by code_simp

text \<open>
  C2. \<^verbatim>\<open>ParsePiece(index, dataBuf, msg)\<close> returns an error exactly when the message id
  is not 7, or the payload has fewer than 8 bytes, or the big-endian index in its first
  four bytes differs from \<open>index\<close>, or the big-endian begin offset in the next four is
  not below the length of the buffer, or the block (the payload after its first eight
  bytes) does not fit between that offset and the end of the buffer. Otherwise the buffer
  holds the block at the offset, is unchanged elsewhere, and the call returns the length
  of the block.
\<close>

theorem ParsePiece_result:
  "(let payload = Payload msg;
        parsed = int (be_value (take 4 payload));
        begin = be_value (take 4 (drop 4 payload));
        block = drop 8 payload;
        rejected = (Id msg \<noteq> 7 \<or> length payload < 8 \<or> parsed \<noteq> index
                      \<or> length dataBuf \<le> begin \<or> length dataBuf < begin + length block)
    in (isl (snd (ParsePiece index dataBuf (Some msg))) \<longleftrightarrow> rejected) \<and>
       (\<not> rejected \<longrightarrow>
          ParsePiece index dataBuf (Some msg) =
            (take begin dataBuf @ block @ drop (begin + length block) dataBuf,
             Inr (int (length block)))))"
proof (cases "Id msg \<noteq> 7 \<or> length (Payload msg) < 8")
  case True
  then show ?thesis by (auto simp add: ParsePiece_def MsgPiece_def Let_def)
next
  case False
  then have len: "8 \<le> length (Payload msg)" and id: "Id msg = 7" by auto
  have i: "uint (be_uint32 (subslice (Payload msg) 0 4)) = int (be_value (take 4 (Payload msg)))"
    using uint_be_uint32_subslice [of 0 "Payload msg"] len by simp
  have b: "uint (be_uint32 (subslice (Payload msg) 4 8)) = int (be_value (take 4 (drop 4 (Payload msg))))"
    using uint_be_uint32_subslice [of 4 "Payload msg"] len by simp
  define bgn where "bgn = be_value (take 4 (drop 4 (Payload msg)))"
  define block where "block = drop 8 (Payload msg)"
  have lb: "int (length block) = int (length (Payload msg)) - 8"
    using len by (simp add: block_def)
  consider
    (mismatch) "int (be_value (take 4 (Payload msg))) \<noteq> index"
  | (beyond) "int (be_value (take 4 (Payload msg))) = index" "length dataBuf \<le> bgn"
  | (large) "int (be_value (take 4 (Payload msg))) = index" "bgn < length dataBuf"
      "length dataBuf < bgn + length block"
  | (ok) "int (be_value (take 4 (Payload msg))) = index" "bgn < length dataBuf"
      "bgn + length block \<le> length dataBuf"
    by linarith
  then have
    "(isl (snd (ParsePiece index dataBuf (Some msg))) \<longleftrightarrow>
        (Id msg \<noteq> 7 \<or> length (Payload msg) < 8 \<or> int (be_value (take 4 (Payload msg))) \<noteq> index
          \<or> length dataBuf \<le> bgn \<or> length dataBuf < bgn + length block)) \<and>
     (\<not> (Id msg \<noteq> 7 \<or> length (Payload msg) < 8 \<or> int (be_value (take 4 (Payload msg))) \<noteq> index
          \<or> length dataBuf \<le> bgn \<or> length dataBuf < bgn + length block) \<longrightarrow>
        ParsePiece index dataBuf (Some msg) =
          (take bgn dataBuf @ block @ drop (bgn + length block) dataBuf, Inr (int (length block))))"
  proof cases
    case mismatch
    then show ?thesis
      using len id by (simp add: ParsePiece_def MsgPiece_def Let_def i)
  next
    case beyond
    then show ?thesis
      using len id by (simp add: ParsePiece_def MsgPiece_def Let_def i b bgn_def [symmetric])
  next
    case large
    then have "int (length dataBuf) < int bgn + (int (length (Payload msg)) - 8)"
      using lb by linarith
    then show ?thesis
      using large len id by (simp add: ParsePiece_def MsgPiece_def Let_def i b bgn_def [symmetric])
  next
    case ok
    then have "\<not> int (length dataBuf) < int bgn + (int (length (Payload msg)) - 8)"
      using lb by linarith
    then show ?thesis
      using ok len id
      by (simp add: ParsePiece_def MsgPiece_def Let_def i b bgn_def [symmetric] block_def [symmetric]
          copy_at_exact)
  qed
  then show ?thesis
    unfolding Let_def bgn_def block_def .
qed

theorem ParsePiece_result_witness:
  "ParsePiece 0 [0, 0, 0, 0, 0, 0, 0, 0, 0, 0]
       (Some \<lparr>Id = 7, Payload = [0, 0, 0, 0, 0, 0, 0, 2, 9, 9, 9]\<rparr>)
     = ([0, 0, 9, 9, 9, 0, 0, 0, 0, 0], Inr 3)
   \<and> isl (snd (ParsePiece 1 [0, 0, 0, 0, 0, 0, 0, 0, 0, 0]
       (Some \<lparr>Id = 7, Payload = [0, 0, 0, 0, 0, 0, 0, 2, 9, 9, 9]\<rparr>)))"
  using ParsePiece_result [of "\<lparr>Id = 7, Payload = [0, 0, 0, 0, 0, 0, 0, 2, 9, 9, 9]\<rparr>" 0
      "[0, 0, 0, 0, 0, 0, 0, 0, 0, 0]"]
    ParsePiece_result [of "\<lparr>Id = 7, Payload = [0, 0, 0, 0, 0, 0, 0, 2, 9, 9, 9]\<rparr>" 1
      "[0, 0, 0, 0, 0, 0, 0, 0, 0, 0]"]
  by (simp add: be_value_def Let_def)

text \<open>
  C10. Whenever \<^verbatim>\<open>ParsePiece\<close> returns an error (or panics on a nil message), the
  buffer it was given is unchanged.
\<close>

theorem ParsePiece_error_keeps_buffer:
  "snd (ParsePiece index dataBuf msg) = Inl err \<Longrightarrow> fst (ParsePiece index dataBuf msg) = dataBuf"
  by (auto simp add: ParsePiece_def Let_def split: option.splits if_splits)

theorem ParsePiece_error_keeps_buffer_witness:
  "snd (ParsePiece 0 [5, 6] (Some \<lparr>Id = 7, Payload = [0, 0, 0, 0, 0, 0, 0, 5, 1]\<rparr>))
     = Inl ErrBeginBeyondBuffer
   \<and> fst (ParsePiece 0 [5, 6] (Some \<lparr>Id = 7, Payload = [0, 0, 0, 0, 0, 0, 0, 5, 1]\<rparr>))
     = [5, 6]"
proof -
  have h: "snd (ParsePiece 0 [5, 6] (Some \<lparr>Id = 7, Payload = [0, 0, 0, 0, 0, 0, 0, 5, 1]\<rparr>))
     = Inl ErrBeginBeyondBuffer"
    by code_simp
  from ParsePiece_error_keeps_buffer [OF h] h show ?thesis by (rule conjI [rotated])
qed

lemma Serialize_layout:
  assumes "length (Payload msg) + 5 < 2 ^ 32"
  shows "Serialize (Some msg) =
    Inr (be_bytes32 (word_of_nat (length (Payload msg) + 1)) @ Id msg # Payload msg)"
proof -
  define n where "n = length (Payload msg)"
  define w :: uint32 where "w = word_of_nat (n + 1)"
  have "4 + w = word_of_nat (n + 5)" by (simp add: w_def)
  then have "unat (4 + w) = (n + 5) mod 2 ^ LENGTH(32)" by (simp only: unat_of_nat)
  then have u: "unat (4 + w) = n + 5"
    using assms by (simp add: n_def)
  have b1: "be_bytes32 w @ drop 4 (replicate (n + 5) (0 :: byte)) = be_bytes32 w @ replicate (n + 1) 0"
    by simp
  have b2: "(be_bytes32 w @ replicate (n + 1) 0)[4 := Id msg] = (be_bytes32 w @ [Id msg]) @ replicate n 0"
    by (simp add: list_update_append length_be_bytes32)
  have b3: "copy_at ((be_bytes32 w @ [Id msg]) @ replicate n 0) 5 (Payload msg)
      = ((be_bytes32 w @ [Id msg]) @ Payload msg @ drop n (replicate n 0), n)"
    using copy_at_append [of 5 "be_bytes32 w @ [Id msg]" "Payload msg" "replicate n 0"]
    by (simp add: length_be_bytes32 n_def)
  have "Serialize (Some msg) = Inr ((be_bytes32 w @ [Id msg]) @ Payload msg @ drop n (replicate n 0))"
    unfolding Serialize_def Let_def option.case
    unfolding n_def [symmetric]
    unfolding w_def [symmetric]
    by (simp only: option.case u b1 b2 b3 fst_conv length_replicate length_append length_be_bytes32)
       simp
  then show ?thesis by (simp add: w_def n_def)
qed

lemma Read_layout:
  assumes "length payload + 1 < 2 ^ 32"
  shows "Read (be_bytes32 (word_of_nat (length payload + 1)) @ i # payload)
     = (Inr (Some \<lparr>Id = i, Payload = payload\<rparr>), [])"
proof -
  define w :: uint32 where "w = word_of_nat (length payload + 1)"
  have "unat w = (length payload + 1) mod 2 ^ LENGTH(32)" unfolding w_def by (simp only: unat_of_nat)
  then have u: "unat w = length payload + 1" using assms by simp
  then have nz: "w \<noteq> 0" by (metis add_is_0 unat_0 zero_neq_one)
  have r1: "ReadFull (be_bytes32 w @ i # payload) 4 = (Inr (be_bytes32 w), i # payload)"
    by (simp add: ReadFull_def length_be_bytes32)
  have r2: "ReadFull (i # payload) (unat w) = (Inr (i # payload), [])"
    by (simp add: ReadFull_def u)
  show ?thesis
    unfolding Read_def w_def [symmetric]
    by (simp add: r1 r2 be_uint32_be_bytes32 nz)
qed

text \<open>
  C4. Reading back what \<^verbatim>\<open>Serialize\<close> wrote gives the message back, with nothing left
  on the reader, for every message whose frame length fits the 32-bit arithmetic of
  \<^verbatim>\<open>Serialize\<close> (a payload of at most \<open>2 ^ 32 - 6\<close> bytes), and for the keep-alive.
\<close>

theorem Message_roundtrip:
  "(length (Payload msg) + 5 < 2 ^ 32 \<longrightarrow>
      (\<exists>bytes. Serialize (Some msg) = Inr bytes \<and> Read bytes = (Inr (Some msg), [])))
   \<and> (\<exists>bytes. Serialize None = Inr bytes \<and> Read bytes = (Inr None, []))"
proof (intro conjI impI)
  assume a: "length (Payload msg) + 5 < 2 ^ 32"
  then have "length (Payload msg) + 1 < 2 ^ 32" by simp
  from Read_layout [OF this, of "Id msg"] Serialize_layout [OF a]
  show "\<exists>bytes. Serialize (Some msg) = Inr bytes \<and> Read bytes = (Inr (Some msg), [])"
    by simp
next
  have "Read (replicate 4 0) = (Inr None, [])"
    by (simp add: Read_def ReadFull_def be_uint32_def numeral_eq_Suc)
  then show "\<exists>bytes. Serialize None = Inr bytes \<and> Read bytes = (Inr None, [])"
    by (simp add: Serialize_def)
qed

theorem Message_roundtrip_witness:
  "Read [0, 0, 0, 5, 4, 0, 0, 0, 123] = (Inr (Some \<lparr>Id = 4, Payload = [0, 0, 0, 123]\<rparr>), [])"
proof -
  have s: "Serialize (Some \<lparr>Id = 4, Payload = [0, 0, 0, 123]\<rparr>) = Inr [0, 0, 0, 5, 4, 0, 0, 0, 123]"
    by code_simp
  have "length (Payload \<lparr>Id = 4, Payload = [0, 0, 0, 123 :: byte]\<rparr>) + 5 < 2 ^ 32"
    by simp
  with Message_roundtrip [of "\<lparr>Id = 4, Payload = [0, 0, 0, 123]\<rparr>"]
  obtain bytes where "Serialize (Some \<lparr>Id = 4, Payload = [0, 0, 0, 123]\<rparr>) = Inr bytes"
    and "Read bytes = (Inr (Some \<lparr>Id = 4, Payload = [0, 0, 0, 123]\<rparr>), [])"
    by blast
  with s show ?thesis by simp
qed

text \<open>
  The claim as stated (any payload) fails: for a payload of \<open>2 ^ 32\<close> bytes the length
  \<^verbatim>\<open>uint32(len(msg.Payload) + 1)\<close> is 1, the frame has five bytes, and reading it back
  gives a message with an empty payload.
\<close>

theorem oversized_message_counterexample:
  "Serialize (Some oversized_message) = Inr [0, 0, 0, 1, 7] \<and>
   Read [0, 0, 0, 1, 7] = (Inr (Some \<lparr>Id = 7, Payload = []\<rparr>), []) \<and>
   Some \<lparr>Id = 7, Payload = []\<rparr> \<noteq> Some oversized_message"
proof -
  have w: "(word_of_nat (4294967296 + 1) :: uint32) = 1" by simp
  have s: "Serialize (Some oversized_message) = Inr [0, 0, 0, 1, 7]"
    unfolding Serialize_def oversized_message_def
    by (simp add: w Let_def be_bytes32_def copy_at_def go_copy_def)
  have r: "Read [0, 0, 0, 1, 7] = (Inr (Some \<lparr>Id = 7, Payload = []\<rparr>), [])"
    by code_simp
  have "length (Payload oversized_message) \<noteq> length ([] :: byte list)"
    by (simp add: oversized_message_def)
  then have "\<lparr>Id = 7, Payload = []\<rparr> \<noteq> oversized_message"
    by (auto simp add: oversized_message_def)
  with s r show ?thesis by simp
qed

section \<open>Handshake codec\<close>

lemma string_of_bytes_of_string: "string_of_bytes (bytes_of_string s) = s"
proof -
  have "char_of (unat (word_of_nat (of_char c) :: byte)) = c" for c
  proof -
    have "(of_char c :: nat) < 256" by simp
    then have "unat (word_of_nat (of_char c) :: byte) = of_char c"
      by (simp add: unat_of_nat)
    then show ?thesis by simp
  qed
  then show ?thesis
    by (simp add: string_of_bytes_def bytes_of_string_def comp_def map_idI)
qed

lemma length_bytes_of_string: "length (bytes_of_string s) = length s"
  by (simp add: bytes_of_string_def)

lemma Handshake_Serialize_layout:
  assumes "length (InfoHash hs) = 20" "length (PeerId hs) = 20"
  shows "Handshake_Serialize hs =
     word_of_nat (length (Pstr hs)) # bytes_of_string (Pstr hs) @ replicate 8 0 @ InfoHash hs @ PeerId hs"
proof -
  define L where "L = length (Pstr hs)"
  define x :: byte where "x = word_of_nat L"
  define ps where "ps = bytes_of_string (Pstr hs)"
  have lps: "length ps = L" by (simp add: ps_def L_def length_bytes_of_string)
  have b1: "(replicate (L + 49) (0 :: byte))[0 := x] = [x] @ replicate (L + 48) 0"
    by (simp add: numeral_eq_Suc)
  have c1: "copy_at ([x] @ replicate (L + 48) 0) 1 ps = ([x] @ ps @ replicate 48 0, L)"
    by (subst copy_at_append) (simp_all add: lps)
  have c2: "copy_at ([x] @ ps @ replicate 48 0) (1 + L) (replicate 8 0)
      = (([x] @ ps) @ replicate 8 0 @ replicate 40 0, 8)"
    using copy_at_append [of "1 + L" "[x] @ ps" "replicate 8 0" "replicate 48 0"]
    by (simp add: lps)
  have c3: "copy_at (([x] @ ps) @ replicate 8 0 @ replicate 40 0) (1 + L + 8) (InfoHash hs)
      = (([x] @ ps @ replicate 8 0) @ InfoHash hs @ replicate 20 0, 20)"
    using copy_at_append [of "1 + L + 8" "[x] @ ps @ replicate 8 0" "InfoHash hs" "replicate 40 0"] assms
    by (simp add: lps)
  have c4: "copy_at (([x] @ ps @ replicate 8 0) @ InfoHash hs @ replicate 20 0) (1 + L + 8 + 20) (PeerId hs)
      = (([x] @ ps @ replicate 8 0 @ InfoHash hs) @ PeerId hs, 20)"
    using copy_at_append [of "1 + L + 8 + 20" "[x] @ ps @ replicate 8 0 @ InfoHash hs" "PeerId hs" "replicate 20 0"] assms
    by (simp add: lps)
  have "Handshake_Serialize hs = ([x] @ ps @ replicate 8 0 @ InfoHash hs) @ PeerId hs"
    unfolding Handshake_Serialize_def Let_def
    unfolding ps_def [symmetric] L_def [symmetric] x_def [symmetric]
    by (simp only: b1 c1 c2 c3 c4 prod.case)
  then show ?thesis by (simp add: x_def ps_def L_def)
qed

lemma Handshake_Read_layout:
  assumes "0 < length pstr" "length pstr < 256" "length ih = 20" "length pid = 20"
  shows "Handshake_Read (word_of_nat (length pstr) # bytes_of_string pstr @ replicate 8 0 @ ih @ pid)
     = (Inr \<lparr>Pstr = pstr, InfoHash = ih, PeerId = pid\<rparr>, [])"
proof -
  define L where "L = length pstr"
  define ps where "ps = bytes_of_string pstr"
  define rest where "rest = ps @ replicate 8 0 @ ih @ pid"
  have lps: "length ps = L" by (simp add: ps_def L_def length_bytes_of_string)
  have l: "unat (word_of_nat L :: byte) = L"
    using assms by (simp add: unat_of_nat L_def)
  have r1: "ReadFull (word_of_nat L # rest) 1 = (Inr [word_of_nat L], rest)"
    by (simp add: ReadFull_def)
  have r2: "ReadFull rest (48 + L) = (Inr rest, [])"
    using assms by (simp add: ReadFull_def rest_def lps)
  have s1: "subslice rest 0 L = ps"
    by (simp add: subslice_def rest_def lps)
  have s2: "subslice rest (L + 8) (L + 8 + 20) = ih"
    using assms by (simp add: subslice_def rest_def lps)
  have s3: "subslice rest (L + 8 + 20) (L + 8 + 20 + 20) = pid"
    using assms by (simp add: subslice_def rest_def lps)
  have g1: "go_copy (replicate 20 0) ih = (ih, 20)"
    using assms go_copy_full [of ih "replicate 20 0"] by simp
  have g2: "go_copy (replicate 20 0) pid = (pid, 20)"
    using assms go_copy_full [of pid "replicate 20 0"] by simp
  have nz: "L \<noteq> 0" using assms by (simp add: L_def)
  have "Handshake_Read (word_of_nat L # rest) = (Inr \<lparr>Pstr = string_of_bytes ps, InfoHash = ih, PeerId = pid\<rparr>, [])"
    unfolding Handshake_Read_def
    by (simp only: r1 r2 l s1 s2 s3 g1 g2 nz prod.case sum.case Let_def nth_Cons_0 if_False)
  then show ?thesis
    by (simp add: rest_def ps_def L_def string_of_bytes_of_string)
qed

text \<open>
  C5. Reading back what \<^verbatim>\<open>Serialize\<close> wrote gives the handshake back, with nothing left
  on the reader, for every handshake whose protocol string has between 1 and 255 bytes
  (its two hashes being arrays of 20 bytes).
\<close>

theorem Handshake_roundtrip:
  "0 < length (Pstr hs) \<and> length (Pstr hs) < 256 \<and> is_Sha1Hash (InfoHash hs) \<and> is_Sha1Hash (PeerId hs)
   \<Longrightarrow> Handshake_Read (Handshake_Serialize hs) = (Inr hs, [])"
  using Handshake_Read_layout [of "Pstr hs" "InfoHash hs" "PeerId hs"]
  by (simp add: Handshake_Serialize_layout is_Sha1Hash_def)

theorem Handshake_roundtrip_witness:
  "Handshake_Read (Handshake_Serialize (Handshake_New (replicate 20 1) (replicate 20 2))) = (Inr (Handshake_New (replicate 20 1) (replicate 20 2)), [])"
proof -
  have "0 < length (Pstr (Handshake_New (replicate 20 1) (replicate 20 2))) \<and> length (Pstr (Handshake_New (replicate 20 1) (replicate 20 2))) < 256 \<and> is_Sha1Hash (InfoHash (Handshake_New (replicate 20 1) (replicate 20 2))) \<and> is_Sha1Hash (PeerId (Handshake_New (replicate 20 1) (replicate 20 2)))"
    by (simp add: Handshake_New_def is_Sha1Hash_def)
  then show ?thesis by (rule Handshake_roundtrip)
qed

text \<open>
  The claim as stated (any non-empty protocol string) fails: the length byte is
  \<^verbatim>\<open>byte(len(hs.Pstr))\<close>, which is 0 for a string of 256 bytes, and \<^verbatim>\<open>Read\<close> rejects it.
\<close>

theorem long_pstr_counterexample:
  "Pstr long_pstr_handshake \<noteq> [] \<and> is_Sha1Hash (InfoHash long_pstr_handshake) \<and> is_Sha1Hash (PeerId long_pstr_handshake) \<and>
  fst (Handshake_Read (Handshake_Serialize long_pstr_handshake)) = Inl ErrPstrLenZero"
proof -
  have "Handshake_Serialize long_pstr_handshake = 0 # bytes_of_string (replicate 256 (CHR ''a'')) @ replicate 8 0 @ replicate 20 0 @ replicate 20 0"
    by (subst Handshake_Serialize_layout) (simp_all add: long_pstr_handshake_def)
  then have "fst (Handshake_Read (Handshake_Serialize long_pstr_handshake)) = Inl ErrPstrLenZero"
    by (simp add: Handshake_Read_def ReadFull_def)
  then show ?thesis
    by (simp add: long_pstr_handshake_def is_Sha1Hash_def)
qed

section \<open>Bitfield\<close>

lemma go_quo_rem_nonneg: "0 \<le> i \<Longrightarrow> go_quo i 8 = i div 8 \<and> go_rem i 8 = i mod 8"
  by (cases "i = 0") (simp_all add: go_quo_def go_rem_def)

lemma go_quo_rem_neg: "i < 0 \<Longrightarrow> go_quo i 8 = - ((- i) div 8) \<and> go_rem i 8 = - ((- i) mod 8)"
  by (simp add: go_quo_def go_rem_def)

lemma HasPiece_in_range:
  assumes "0 \<le> i" "i < 8 * int (length bf)"
  shows "HasPiece bf i \<longleftrightarrow> bit (bf ! nat (i div 8)) (7 - nat (i mod 8))"
proof -
  have "i div 8 < int (length bf)" "0 \<le> i div 8" using assms by auto
  moreover have "nat (7 - i mod 8) = 7 - nat (i mod 8)" by auto
  ultimately show ?thesis
    using assms by (simp add: HasPiece_def go_quo_rem_nonneg Let_def bit_iff_and_drop_bit_eq_1)
qed

lemma HasPiece_negative: "i < 0 \<Longrightarrow> \<not> HasPiece bf i"
proof -
  assume neg: "i < 0"
  have "8 \<le> nat (7 + (- i) mod 8)" if "(- i) div 8 = 0"
    using that neg by (auto simp: div_eq_0_iff)
  then show ?thesis using neg
    by (auto simp add: HasPiece_def go_quo_rem_neg Let_def)
qed

lemma HasPiece_beyond: "8 * int (length bf) \<le> i \<Longrightarrow> \<not> HasPiece bf i"
  by (auto simp add: HasPiece_def go_quo_rem_nonneg Let_def)

lemma two_pow_byte: "8 \<le> n \<Longrightarrow> (2 ^ n :: byte) = 0"
  using push_bit_word_beyond [of n "1 :: byte"] by simp

lemma SetPiece_negative: "i < 0 \<Longrightarrow> SetPiece bf i = bf"
proof -
  assume neg: "i < 0"
  have "8 \<le> nat (7 + (- i) mod 8)" if "(- i) div 8 = 0"
    using that neg by (auto simp: div_eq_0_iff)
  then show ?thesis using neg
    by (auto simp add: SetPiece_def go_quo_rem_neg Let_def two_pow_byte)
qed

lemma SetPiece_beyond: "8 * int (length bf) \<le> i \<Longrightarrow> SetPiece bf i = bf"
  by (auto simp add: SetPiece_def go_quo_rem_nonneg Let_def)

text \<open>
  C6. \<^verbatim>\<open>HasPiece(i)\<close> is true exactly when \<open>i\<close> lies in \<open>[0, 8 * len)\<close> and bit
  \<open>7 - i mod 8\<close> of byte \<open>i div 8\<close> is set; it is false for every negative or
  out-of-range index; and \<^verbatim>\<open>SetPiece(i)\<close> leaves the bitfield as it is for every negative
  or out-of-range index.
\<close>

theorem Bitfield_has_set:
  "(HasPiece bf i \<longleftrightarrow>
      0 \<le> i \<and> i < 8 * int (length bf) \<and> bit (bf ! nat (i div 8)) (7 - nat (i mod 8)))
   \<and> (i < 0 \<or> 8 * int (length bf) \<le> i \<longrightarrow> \<not> HasPiece bf i)
   \<and> (i < 0 \<or> 8 * int (length bf) \<le> i \<longrightarrow> SetPiece bf i = bf)"
  using HasPiece_in_range [of i bf] HasPiece_negative [of i bf] HasPiece_beyond [of bf i]
    SetPiece_negative [of i bf] SetPiece_beyond [of bf i]
  by (cases "0 \<le> i \<and> i < 8 * int (length bf)") auto

theorem Bitfield_has_set_witness:
  "\<not> HasPiece [0x54, 0x54] (- 3) \<and> SetPiece [0x54, 0x54] (- 3) = [0x54, 0x54]
   \<and> \<not> HasPiece [0x54, 0x54] 19 \<and> SetPiece [0x54, 0x54] 19 = [0x54, 0x54]"
proof -
  have a: "(- 3 :: int) < 0 \<or> 8 * int (length [0x54, 0x54 :: byte]) \<le> - 3" by simp
  have b: "(19 :: int) < 0 \<or> 8 * int (length [0x54, 0x54 :: byte]) \<le> 19" by simp
  from Bitfield_has_set [of "[0x54, 0x54]" "- 3"] Bitfield_has_set [of "[0x54, 0x54]" 19] a b
  show ?thesis by blast
qed

section \<open>Compact peer list\<close>

lemma Unmarshal_loop_result:
  assumes "length peers = n" "6 * n \<le> length bin" "i \<le> n"
  shows "Unmarshal_loop bin n i peers = Inr (take i peers @ map (peer_at bin) [i..<n])"
  using assms
proof (induction "n - i" arbitrary: i peers)
  case 0
  then show ?case by (simp add: Unmarshal_loop.simps)
next
  case (Suc d)
  then have i: "i < n" by simp
  let ?p1 = "peers[i := (peers ! i)\<lparr>IP := subslice bin (i * 6) (i * 6 + 4)\<rparr>]"
  let ?p2 = "?p1[i := (?p1 ! i)\<lparr>Port := be_uint16 (subslice bin (i * 6 + 4) (i * 6 + 4 + 2))\<rparr>]"
  have upd: "r\<lparr>IP := a, Port := b\<rparr> = \<lparr>IP = a, Port = b\<rparr>" for r :: Peer and a b
    by (cases r) simp
  have p2: "?p2 = peers[i := peer_at bin i]"
    using i Suc.prems by (simp add: peer_at_def upd)
  have "Unmarshal_loop bin n i peers = Unmarshal_loop bin n (i + 1) ?p2"
    using i Suc.prems by (subst Unmarshal_loop.simps) (simp add: Let_def)
  then have step: "Unmarshal_loop bin n i peers = Unmarshal_loop bin n (i + 1) (peers[i := peer_at bin i])"
    by (simp only: p2)
  have "Unmarshal_loop bin n (i + 1) (peers[i := peer_at bin i]) =
      Inr (take (i + 1) (peers[i := peer_at bin i]) @ map (peer_at bin) [i + 1..<n])"
    using Suc.hyps Suc.prems i by (intro Suc.hyps(1)) simp_all
  also have "take (i + 1) (peers[i := peer_at bin i]) = take i peers @ [peer_at bin i]"
    using i Suc.prems by (simp add: take_Suc_conv_app_nth)
  finally show ?case using i step by (simp add: upt_conv_Cons)
qed

text \<open>
  C7. For a byte string whose length is a multiple of 6, \<^verbatim>\<open>Unmarshal\<close> returns
  \<open>len div 6\<close> peers, peer \<open>k\<close> having the four bytes at offset \<open>6 * k\<close> as its address
  and the big-endian value of the two bytes at offset \<open>6 * k + 4\<close> as its port; for any
  other length it returns an error.
\<close>

theorem Unmarshal_compact:
  "(length peersBin mod 6 = 0 \<longrightarrow>
      (\<exists>peers. Unmarshal peersBin = Inr peers \<and> length peers = length peersBin div 6 \<and>
         (\<forall>k < length peers.
            IP (peers ! k) = [peersBin ! (6 * k), peersBin ! (6 * k + 1),
                              peersBin ! (6 * k + 2), peersBin ! (6 * k + 3)] \<and>
            unat (Port (peers ! k)) =
              256 * unat (peersBin ! (6 * k + 4)) + unat (peersBin ! (6 * k + 5)))))
   \<and> (length peersBin mod 6 \<noteq> 0 \<longrightarrow> Unmarshal peersBin = Inl ErrMalformedPeers)"
proof (intro conjI impI)
  assume m: "length peersBin mod 6 = 0"
  let ?n = "length peersBin div 6"
  have len: "6 * ?n = length peersBin" using m by auto
  have res: "Unmarshal peersBin = Inr (map (peer_at peersBin) [0..<?n])"
    using m len Unmarshal_loop_result [of "replicate ?n zero_Peer" ?n peersBin 0]
    by (simp add: Unmarshal_def Let_def)
  have "IP (peer_at peersBin k) = [peersBin ! (6 * k), peersBin ! (6 * k + 1),
                              peersBin ! (6 * k + 2), peersBin ! (6 * k + 3)] \<and>
            unat (Port (peer_at peersBin k)) =
              256 * unat (peersBin ! (6 * k + 4)) + unat (peersBin ! (6 * k + 5))" if "k < ?n" for k
  proof -
    have b: "k * 6 + 6 \<le> length peersBin" using that len by linarith
    have "subslice peersBin (k * 6 + 4) (k * 6 + 4 + 2) = [peersBin ! (k * 6 + 4), peersBin ! (k * 6 + 4 + 1)]"
      using b by (intro subslice_2) simp_all
    moreover have "subslice peersBin (k * 6) (k * 6 + 4) =
        [peersBin ! (k * 6), peersBin ! (k * 6 + 1), peersBin ! (k * 6 + 2), peersBin ! (k * 6 + 3)]"
      using b by (intro subslice_4) simp_all
    ultimately show ?thesis
      by (simp add: peer_at_def unat_be_uint16 ac_simps)
  qed
  then show "\<exists>peers. Unmarshal peersBin = Inr peers \<and> length peers = length peersBin div 6 \<and>
         (\<forall>k < length peers.
            IP (peers ! k) = [peersBin ! (6 * k), peersBin ! (6 * k + 1),
                              peersBin ! (6 * k + 2), peersBin ! (6 * k + 3)] \<and>
            unat (Port (peers ! k)) =
              256 * unat (peersBin ! (6 * k + 4)) + unat (peersBin ! (6 * k + 5)))"
    using res by simp
next
  assume "length peersBin mod 6 \<noteq> 0"
  then show "Unmarshal peersBin = Inl ErrMalformedPeers"
    by (simp add: Unmarshal_def Let_def)
qed

theorem Unmarshal_compact_witness:
  "(\<exists>peers. Unmarshal [127, 0, 0, 1, 0x00, 0x50, 1, 1, 1, 1, 0x01, 0xBB] = Inr peers
       \<and> length peers = 2
       \<and> IP (peers ! 0) = [127, 0, 0, 1] \<and> unat (Port (peers ! 0)) = 80
       \<and> IP (peers ! 1) = [1, 1, 1, 1] \<and> unat (Port (peers ! 1)) = 443)
   \<and> Unmarshal [127, 0, 0, 1, 0x00] = Inl ErrMalformedPeers"
proof -
  from Unmarshal_compact [of "[127, 0, 0, 1, 0x00, 0x50, 1, 1, 1, 1, 0x01, 0xBB]"]
  obtain peers where p: "Unmarshal [127, 0, 0, 1, 0x00, 0x50, 1, 1, 1, 1, 0x01, 0xBB] = Inr peers"
    "length peers = 2"
    and each: "\<forall>k < length peers.
       IP (peers ! k) = [[127, 0, 0, 1, 0x00, 0x50, 1, 1, 1, 1, 0x01, 0xBB] ! (6 * k),
                         [127, 0, 0, 1, 0x00, 0x50, 1, 1, 1, 1, 0x01, 0xBB] ! (6 * k + 1),
                         [127, 0, 0, 1, 0x00, 0x50, 1, 1, 1, 1, 0x01, 0xBB] ! (6 * k + 2),
                         [127, 0, 0, 1, 0x00, 0x50, 1, 1, 1, 1, 0x01, 0xBB] ! (6 * k + 3)] \<and>
       unat (Port (peers ! k)) =
         256 * unat ([127, 0, 0, 1, 0x00, 0x50, 1, 1, 1, 1, 0x01, 0xBB :: byte] ! (6 * k + 4))
           + unat ([127, 0, 0, 1, 0x00, 0x50, 1, 1, 1, 1, 0x01, 0xBB :: byte] ! (6 * k + 5))"
    by auto
  from each p(2) have
    "IP (peers ! 0) = [127, 0, 0, 1]" "unat (Port (peers ! 0)) = 80"
    "IP (peers ! 1) = [1, 1, 1, 1]" "unat (Port (peers ! 1)) = 443"
    by simp_all
  moreover from Unmarshal_compact [of "[127, 0, 0, 1, 0x00]"]
  have "Unmarshal [127, 0, 0, 1, 0x00] = Inl ErrMalformedPeers" by simp
  ultimately show ?thesis using p by blast
qed

section \<open>Piece sizes\<close>

lemma int64_id: "- (2 ^ 63) \<le> k \<Longrightarrow> k < 2 ^ 63 \<Longrightarrow> int64 k = k"
  by (simp add: int64_def)

text \<open>
  C3. For every torrent with total length \<open>L\<close>, piece length \<open>P\<close> and \<open>n\<close> pieces and
  every index \<open>i\<close> of a piece, the size computed for piece \<open>i\<close> is \<open>min P (L - i * P)\<close>,
  which is at most \<open>P\<close>. The lengths are not negative, and the end \<open>(i + 1) * P\<close> of a
  full piece fits the 64-bit \<^verbatim>\<open>int\<close>, so that no operation of the computation wraps:
  that holds of every torrent read from a metainfo file, whose \<open>L\<close> and \<open>P\<close> are 32-bit
  values, with up to \<open>2 ^ 31\<close> pieces.
\<close>

theorem calculatePieceSize_min:
  assumes "0 \<le> PieceLength torrent"
    and "0 \<le> Length torrent" "Length torrent < 2 ^ 63"
    and "0 \<le> index" "index < int (length (PiecesHashes torrent))"
    and "(index + 1) * PieceLength torrent < 2 ^ 63"
  shows "calculatePieceSize torrent index =
           min (PieceLength torrent) (Length torrent - index * PieceLength torrent)
         \<and> calculatePieceSize torrent index \<le> PieceLength torrent"
proof -
  define P where "P = PieceLength torrent"
  define L where "L = Length torrent"
  define S where "S = index * P"
  have P: "0 \<le> P" and L: "0 \<le> L" "L < 2 ^ 63"
    using assms by (simp_all add: P_def L_def)
  have nn: "0 \<le> S" using assms(4) P by (simp add: S_def)
  have "S + P = (index + 1) * P" by (simp add: S_def algebra_simps)
  then have lt: "S + P < 2 ^ 63" using assms(6) by (simp add: P_def)
  have s: "int64 S = S"
    using lt nn P by (intro int64_id) simp_all
  have e: "int64 (S + P) = S + P"
    using lt nn P by (intro int64_id) simp_all
  have d1: "int64 (L - S) = L - S"
    using lt nn L P by (intro int64_id) simp_all
  have d2: "int64 (S + P - S) = P"
    using lt nn P by (simp add: int64_id)
  have "calculatePieceSize torrent index =
      int64 ((if int64 (int64 S + P) > L then L else int64 (int64 S + P)) - int64 S)"
    unfolding calculatePieceSize_def calculateBoundsForPiece_def Let_def
    unfolding P_def [symmetric] L_def [symmetric] S_def [symmetric]
    by simp
  also have "\<dots> = min P (L - S)"
    using d1 d2 by (simp add: s e min_def)
  finally show ?thesis using P by (simp add: P_def L_def S_def)
qed

theorem calculatePieceSize_min_witness:
  "calculatePieceSize small_torrent 3 = 100 \<and> calculatePieceSize small_torrent 3 \<le> 300"
proof -
  have "calculatePieceSize small_torrent 3 =
           min (PieceLength small_torrent) (Length small_torrent - 3 * PieceLength small_torrent)
         \<and> calculatePieceSize small_torrent 3 \<le> PieceLength small_torrent"
    by (rule calculatePieceSize_min) (simp_all add: small_torrent_def)
  then show ?thesis by (simp add: small_torrent_def)
qed

section \<open>Piece downloader\<close>

lemma ParsePiece_size_nonneg: "ParsePiece i buf m = (buf', Inr n) \<Longrightarrow> 0 \<le> n"
  by (auto simp add: ParsePiece_def Let_def split: option.splits if_splits)

lemma ReadMessage_counters:
  assumes "ReadMessage s = (e, s')"
  shows "Requested s' = Requested s \<and> Backlog s' \<le> Backlog s \<and> Downloaded s \<le> Downloaded s'"
proof -
  obtain r c where cr: "Client_Read (Client s) = (r, c)"
    by (cases "Client_Read (Client s)") auto
  show ?thesis
  proof (cases r)
    case (Inl err)
    then show ?thesis using assms cr by (auto simp add: ReadMessage_def Let_def)
  next
    case (Inr mo)
    show ?thesis
    proof (cases mo)
      case None
      then show ?thesis using assms cr Inr by (auto simp add: ReadMessage_def Let_def)
    next
      case (Some msg)
      obtain b pr where pp: "ParsePiece (Index s) (Buf s) (Some msg) = (b, pr)"
        by (cases "ParsePiece (Index s) (Buf s) (Some msg)") auto
      have nonneg: "0 \<le> n" if "pr = Inr n" for n
        using pp that ParsePiece_size_nonneg by blast
      show ?thesis
        using assms cr Inr Some pp nonneg
        by (auto simp add: ReadMessage_def Let_def split: sum.splits if_splits)
    qed
  qed
qed

lemma ReadMessage_progress_ok:
  "progress_ok pw s \<Longrightarrow> ReadMessage s = (e, s') \<Longrightarrow> progress_ok pw s'"
  using ReadMessage_counters [of s e s'] by (auto simp add: progress_ok_def)

lemma SendRequest_Choked:
  "SendRequest c i b l = (e, c') \<Longrightarrow> Choked c' = Choked c"
  by (auto simp add: SendRequest_def Conn_Write_def Let_def
            split: sum.splits option.splits nat.splits)

lemma request_loop_inv:
  assumes "progress_ok pw s" "\<not> Choked (Client s)"
  shows "progress_ok pw (fst (snd (request_loop pw s)))
       \<and> (\<forall>entry \<in> set (snd (snd (request_loop pw s))). step_ok pw entry)"
  using assms
proof (induction "nat (Length_pw pw - Requested s)" arbitrary: s rule: less_induct)
  case less
  show ?case
  proof (cases "Backlog s \<noteq> MaxBacklog \<and> Requested s < Length_pw pw")
    case False
    have "request_loop pw s = (None, s, [])"
      by (subst request_loop.simps) (simp only: False if_False)
    then show ?thesis using less.prems by simp
  next
    case True
    define bs where "bs = (if Length_pw pw - Requested s < MaxBlockSize
                           then Length_pw pw - Requested s else MaxBlockSize)"
    have pos: "0 < bs" and fit: "Requested s + bs \<le> Length_pw pw"
      using True by (simp_all add: bs_def MaxBlockSize_def)
    obtain e c where sr: "SendRequest (Client s) (Index_pw pw) (Requested s) bs = (e, c)"
      by (cases "SendRequest (Client s) (Index_pw pw) (Requested s) bs") auto
    then have c: "\<not> Choked c"
      using SendRequest_Choked less.prems by blast
    define s' where "s' = s\<lparr>Client := c, Backlog := Backlog s + 1, Requested := Requested s + bs\<rparr>"
    have unf: "request_loop pw s =
       (case e of Some err \<Rightarrow> (Some err, s\<lparr>Client := c\<rparr>, [])
        | None \<Rightarrow> (case request_loop pw s' of (err, final, tr) \<Rightarrow> (err, final, (Sent, s') # tr)))"
      apply (subst request_loop.simps)
      unfolding Let_def bs_def [symmetric]
      apply (simp only: True if_True sr prod.case)
      unfolding s'_def [symmetric]
      apply (cases e)
       apply simp_all
      done
    show ?thesis
    proof (cases e)
      case (Some err)
      then show ?thesis using less.prems by (simp add: unf progress_ok_def)
    next
      case None
      have bl: "Backlog s < MaxBacklog"
        using True less.prems by (simp add: progress_ok_def)
      have ok': "progress_ok pw s'"
        using less.prems pos fit bl by (simp add: progress_ok_def s'_def)
      have ch': "\<not> Choked (Client s')" using c by (simp add: s'_def)
      have "nat (Length_pw pw - Requested s') < nat (Length_pw pw - Requested s)"
        using True pos by (simp add: s'_def)
      then have "progress_ok pw (fst (snd (request_loop pw s')))
         \<and> (\<forall>entry \<in> set (snd (snd (request_loop pw s'))). step_ok pw entry)"
        using ok' ch' by (rule less.hyps)
      then show ?thesis
        using None ok' ch' by (auto simp add: unf step_ok_def split: prod.splits)
    qed
  qed
qed


lemma download_loop_inv:
  "progress_ok pw s \<Longrightarrow> \<forall>entry \<in> set (snd (snd (download_loop pw s))). step_ok pw entry"
proof (induction pw s rule: download_loop.induct)
  case (1 pw state)
  show ?case
  proof (cases "Downloaded state < Length_pw pw")
    case False
    then have "download_loop pw state = (None, state, [])"
      by (subst download_loop.simps) simp
    then show ?thesis by simp
  next
    case True
    obtain x xa ya where rl:
      "(if \<not> Choked (Client state) then request_loop pw state else (None, state, [])) = (x, xa, ya)"
      by (metis prod_cases3)
    have after: "progress_ok pw xa \<and> (\<forall>entry \<in> set ya. step_ok pw entry)"
    proof (cases "Choked (Client state)")
      case True
      then show ?thesis using rl "1.prems" by auto
    next
      case False
      then have "request_loop pw state = (x, xa, ya)" using rl by simp
      then show ?thesis using request_loop_inv [OF "1.prems" False] by simp
    qed
    obtain xb yb where rm: "ReadMessage xa = (xb, yb)"
      by (cases "ReadMessage xa") auto
    have okb: "progress_ok pw yb"
      using after rm ReadMessage_progress_ok by blast
    have unf: "download_loop pw state =
      (case x of Some err \<Rightarrow> (Some err, xa, ya)
       | None \<Rightarrow> (case xb of Some err \<Rightarrow> (Some err, yb, ya)
           | None \<Rightarrow> (case download_loop pw yb of
                (err, final, tr2) \<Rightarrow> (err, final, ya @ (Received, yb) # tr2))))"
      apply (subst download_loop.simps)
      apply (simp only: True if_True rl prod.case)
      apply (cases x)
       apply (simp_all add: rm)
      done
    show ?thesis
    proof (cases x)
      case (Some err)
      then show ?thesis using after by (simp add: unf)
    next
      case None
      note xNone = this
      show ?thesis
      proof (cases xb)
        case (Some err)
        then show ?thesis using after xNone by (simp add: unf)
      next
        case None
        have "\<forall>entry \<in> set (snd (snd (download_loop pw yb))). step_ok pw entry"
          using "1.IH" [OF True rl [symmetric] xNone refl rm [symmetric] None] okb by simp
        then show ?thesis
          using after okb xNone None
          by (auto simp add: unf step_ok_def split: prod.splits)
      qed
    qed
  qed
qed

lemma attemptDownloadPiece_bounds:
  "\<forall>entry \<in> set (snd (snd (attemptDownloadPiece torrentClient pw))).
      0 \<le> Downloaded (snd entry) \<and> 0 \<le> Requested (snd entry)
      \<and> Requested (snd entry) \<le> Length_pw pw \<and> Backlog (snd entry) \<le> 8
      \<and> (fst entry = Sent \<longrightarrow> \<not> Choked (Client (snd entry)))"
proof (cases "Length_pw pw < 0")
  case True
  then show ?thesis by (simp add: attemptDownloadPiece_def)
next
  case False
  define state where "state = \<lparr>Index = Index_pw pw, Client = torrentClient,
                     Buf = replicate (nat (Length_pw pw)) 0,
                     Downloaded = 0, Requested = 0, Backlog = 0\<rparr>"
  have ok: "progress_ok pw state"
    using False by (simp add: progress_ok_def state_def MaxBacklog_def)
  then have first: "step_ok pw (Start, state)" by (simp add: step_ok_def)
  have tr: "snd (snd (attemptDownloadPiece torrentClient pw))
      = (Start, state) # snd (snd (download_loop pw state))"
    using False
    by (simp add: attemptDownloadPiece_def Let_def state_def [symmetric]
        split: prod.splits option.splits)
  have "\<forall>entry \<in> set (snd (snd (attemptDownloadPiece torrentClient pw))). step_ok pw entry"
    using download_loop_inv [OF ok] first by (simp add: tr)
  then show ?thesis
    by (simp add: step_ok_def progress_ok_def MaxBacklog_def)
qed

lemma finite_requested_blocks: "finite (requested_blocks R)"
proof -
  have "requested_blocks R \<subseteq> {0..<R}" by (auto simp add: requested_blocks_def)
  then show ?thesis using finite_subset by blast
qed

lemma accounted_bounds:
  assumes "accounted pw answered s"
  shows "Downloaded s \<le> Requested s \<and> 0 \<le> Backlog s"
proof -
  have sub: "set answered \<subseteq> requested_blocks (Requested s)"
    and d: "Downloaded s = (\<Sum>b \<in> set answered. block_size pw b)"
    and r: "(\<Sum>b \<in> requested_blocks (Requested s). block_size pw b) = Requested s"
    and bl: "Backlog s = int (card (requested_blocks (Requested s))) - int (length answered)"
    and dist: "distinct answered" and le: "Requested s \<le> Length_pw pw"
    using assms by (simp_all add: accounted_def)
  have nonneg: "0 \<le> block_size pw b" if "b \<in> requested_blocks (Requested s)" for b
    using that le by (simp add: requested_blocks_def block_size_def MaxBlockSize_def)
  have "(\<Sum>b \<in> set answered. block_size pw b)
      \<le> (\<Sum>b \<in> requested_blocks (Requested s). block_size pw b)"
    using sub nonneg finite_requested_blocks by (intro sum_mono2) auto
  then have "Downloaded s \<le> Requested s" using d r by simp
  moreover have "card (set answered) \<le> card (requested_blocks (Requested s))"
    using sub finite_requested_blocks by (intro card_mono) auto
  then have "0 \<le> Backlog s" using bl dist by (simp add: distinct_card)
  ultimately show ?thesis by simp
qed

lemma accounted_Sent:
  assumes "accounted pw answered s" "Requested s < Length_pw pw"
    and "bs = (if Length_pw pw - Requested s < MaxBlockSize
               then Length_pw pw - Requested s else MaxBlockSize)"
  shows "accounted pw answered
           (s\<lparr>Client := c, Backlog := Backlog s + 1, Requested := Requested s + bs\<rparr>)"
proof -
  define R where "R = Requested s"
  have al: "R mod MaxBlockSize = 0" and R0: "0 \<le> R" and Rl: "R < Length_pw pw"
    using assms by (auto simp add: accounted_def R_def)
  have bs: "bs = block_size pw R" using assms(3) by (auto simp add: block_size_def R_def)
  have pos: "0 < bs" and leB: "bs \<le> MaxBlockSize" and fit: "R + bs \<le> Length_pw pw"
    using assms(3) Rl by (auto simp add: R_def MaxBlockSize_def)
  have ins: "requested_blocks (R + bs) = insert R (requested_blocks R)"
  proof (intro set_eqI iffI)
    fix b assume "b \<in> requested_blocks (R + bs)"
    then have b: "0 \<le> b" "b < R + bs" "b mod MaxBlockSize = 0"
      by (simp_all add: requested_blocks_def)
    show "b \<in> insert R (requested_blocks R)"
    proof (cases "b < R")
      case True
      then show ?thesis using b by (simp add: requested_blocks_def)
    next
      case False
      have "MaxBlockSize dvd b - R"
        using b(3) al by (simp add: mod_eq_0_iff_dvd MaxBlockSize_def)
      moreover have "0 \<le> b - R" "b - R < MaxBlockSize" using False b leB by simp_all
      ultimately have "b - R = 0"
        by (metis dvd_imp_mod_0 mod_pos_pos_trivial)
      then show ?thesis by simp
    qed
  next
    fix b assume "b \<in> insert R (requested_blocks R)"
    then show "b \<in> requested_blocks (R + bs)"
      using al R0 pos by (auto simp add: requested_blocks_def)
  qed
  have notin: "R \<notin> requested_blocks R" by (simp add: requested_blocks_def)
  have "(\<Sum>b \<in> requested_blocks (R + bs). block_size pw b)
      = (\<Sum>b \<in> insert R (requested_blocks R). block_size pw b)"
    by (simp only: ins)
  also have "\<dots> = block_size pw R + (\<Sum>b \<in> requested_blocks R. block_size pw b)"
    using notin finite_requested_blocks [of R] by simp
  also have "\<dots> = R + bs"
    using assms(1) by (simp add: bs accounted_def R_def [symmetric])
  finally have sum: "(\<Sum>b \<in> requested_blocks (R + bs). block_size pw b) = R + bs" .
  have card: "card (requested_blocks (R + bs)) = Suc (card (requested_blocks R))"
    using notin finite_requested_blocks [of R] by (simp add: ins)
  have al': "(R + bs) mod MaxBlockSize = 0 \<or> R + bs = Length_pw pw"
    using assms(3) al by (auto simp add: R_def)
  have old: "distinct answered" "set answered \<subseteq> requested_blocks R"
    "Downloaded s = (\<Sum>b \<in> set answered. block_size pw b)"
    "Backlog s = int (card (requested_blocks R)) - int (length answered)"
    using assms(1) by (simp_all add: accounted_def R_def)
  have sub: "set answered \<subseteq> requested_blocks (R + bs)"
    using old(2) unfolding ins by blast
  have "accounted pw answered
           (s\<lparr>Client := c, Backlog := Backlog s + 1, Requested := R + bs\<rparr>)"
    unfolding accounted_def
    using old(1,3,4) R0 pos fit al' sum card sub by simp
  then show ?thesis by (simp add: R_def)
qed


lemma request_loop_trace:
  "(\<forall>entry \<in> set (snd (snd (request_loop pw s))). fst entry = Sent)
   \<and> (fst (request_loop pw s) = None \<longrightarrow>
        fst (snd (request_loop pw s))
          = (if snd (snd (request_loop pw s)) = [] then s
             else snd (last (snd (snd (request_loop pw s))))))"
proof (induction "nat (Length_pw pw - Requested s)" arbitrary: s rule: less_induct)
  case less
  show ?case
  proof (cases "Backlog s \<noteq> MaxBacklog \<and> Requested s < Length_pw pw")
    case False
    have "request_loop pw s = (None, s, [])"
      by (subst request_loop.simps) (simp only: False if_False)
    then show ?thesis by simp
  next
    case True
    define bs where "bs = (if Length_pw pw - Requested s < MaxBlockSize
                           then Length_pw pw - Requested s else MaxBlockSize)"
    have pos: "0 < bs"
      using True by (simp_all add: bs_def MaxBlockSize_def)
    obtain e c where sr: "SendRequest (Client s) (Index_pw pw) (Requested s) bs = (e, c)"
      by (cases "SendRequest (Client s) (Index_pw pw) (Requested s) bs") auto
    define s' where "s' = s\<lparr>Client := c, Backlog := Backlog s + 1, Requested := Requested s + bs\<rparr>"
    have unf: "request_loop pw s =
       (case e of Some err \<Rightarrow> (Some err, s\<lparr>Client := c\<rparr>, [])
        | None \<Rightarrow> (case request_loop pw s' of (err, final, tr) \<Rightarrow> (err, final, (Sent, s') # tr)))"
      apply (subst request_loop.simps)
      unfolding Let_def bs_def [symmetric]
      apply (simp only: True if_True sr prod.case)
      unfolding s'_def [symmetric]
      apply (cases e)
       apply simp_all
      done
    show ?thesis
    proof (cases e)
      case (Some err)
      then show ?thesis by (simp add: unf)
    next
      case None
      have "nat (Length_pw pw - Requested s') < nat (Length_pw pw - Requested s)"
        using True pos by (simp add: s'_def)
      from less.hyps [OF this] None show ?thesis
        by (auto simp add: unf split: prod.splits)
    qed
  qed
qed

lemma request_loop_accounted:
  assumes "accounted pw answered s"
  shows "accounted pw answered (fst (snd (request_loop pw s)))
       \<and> (\<forall>entry \<in> set (snd (snd (request_loop pw s))). accounted pw answered (snd entry))"
  using assms
proof (induction "nat (Length_pw pw - Requested s)" arbitrary: s rule: less_induct)
  case less
  show ?case
  proof (cases "Backlog s \<noteq> MaxBacklog \<and> Requested s < Length_pw pw")
    case False
    have "request_loop pw s = (None, s, [])"
      by (subst request_loop.simps) (simp only: False if_False)
    then show ?thesis using less.prems by simp
  next
    case True
    define bs where "bs = (if Length_pw pw - Requested s < MaxBlockSize
                           then Length_pw pw - Requested s else MaxBlockSize)"
    have pos: "0 < bs"
      using True by (simp_all add: bs_def MaxBlockSize_def)
    obtain e c where sr: "SendRequest (Client s) (Index_pw pw) (Requested s) bs = (e, c)"
      by (cases "SendRequest (Client s) (Index_pw pw) (Requested s) bs") auto
    define s' where "s' = s\<lparr>Client := c, Backlog := Backlog s + 1, Requested := Requested s + bs\<rparr>"
    have unf: "request_loop pw s =
       (case e of Some err \<Rightarrow> (Some err, s\<lparr>Client := c\<rparr>, [])
        | None \<Rightarrow> (case request_loop pw s' of (err, final, tr) \<Rightarrow> (err, final, (Sent, s') # tr)))"
      apply (subst request_loop.simps)
      unfolding Let_def bs_def [symmetric]
      apply (simp only: True if_True sr prod.case)
      unfolding s'_def [symmetric]
      apply (cases e)
       apply simp_all
      done
    show ?thesis
    proof (cases e)
      case (Some err)
      then show ?thesis using less.prems by (simp add: unf accounted_def)
    next
      case None
      have acc': "accounted pw answered s'"
        unfolding s'_def using less.prems True bs_def by (intro accounted_Sent) simp_all
      have "nat (Length_pw pw - Requested s') < nat (Length_pw pw - Requested s)"
        using True pos by (simp add: s'_def)
      from less.hyps [OF this acc'] None acc' show ?thesis
        by (auto simp add: unf split: prod.splits)
    qed
  qed
qed

lemma solicited_Sent_prefix:
  "\<forall>entry \<in> set tr1. fst entry = Sent \<Longrightarrow>
   solicited pw answered s (tr1 @ rest)
     = solicited pw answered (if tr1 = [] then s else snd (last tr1)) rest"
proof (induction tr1 arbitrary: s)
  case Nil
  then show ?case by simp
next
  case (Cons entry tr1)
  obtain k st where entry: "entry = (k, st)" by (cases entry)
  then have k: "k = Sent" using Cons.prems by simp
  have "solicited pw answered s ((Sent, st) # tr1 @ rest) = solicited pw answered st (tr1 @ rest)"
    by simp
  also have "\<dots> = solicited pw answered (if tr1 = [] then st else snd (last tr1)) rest"
    using Cons by simp
  finally show ?case by (simp add: entry k)
qed

lemma ReadMessage_effect:
  assumes "ReadMessage s = (None, s')"
  shows "Requested s' = Requested s \<and>
    (case fst (Read (inbound (Conn (Client s)))) of
       Inr (Some msg) \<Rightarrow>
         if Id msg = MsgPiece then
           Downloaded s' = Downloaded s + int (length (drop 8 (Payload msg)))
           \<and> Backlog s' = Backlog s - 1
         else Downloaded s' = Downloaded s \<and> Backlog s' = Backlog s
     | _ \<Rightarrow> Downloaded s' = Downloaded s \<and> Backlog s' = Backlog s)"
proof -
  obtain r rest where rd: "Read (inbound (Conn (Client s))) = (r, rest)"
    by (cases "Read (inbound (Conn (Client s)))") auto
  then have cr: "Client_Read (Client s) = (r, (Client s)\<lparr>Conn := (Conn (Client s))\<lparr>inbound := rest\<rparr>\<rparr>)"
    by (simp add: Client_Read_def)
  show ?thesis
  proof (cases r)
    case (Inl err)
    then show ?thesis using assms cr by (simp add: ReadMessage_def Let_def)
  next
    case (Inr mo)
    show ?thesis
    proof (cases mo)
      case None
      then show ?thesis using assms cr rd Inr by (auto simp add: ReadMessage_def Let_def)
    next
      case (Some msg)
      obtain b pr where pp: "ParsePiece (Index s) (Buf s) (Some msg) = (b, pr)"
        by (cases "ParsePiece (Index s) (Buf s) (Some msg)") auto
      have size: "n = int (length (drop 8 (Payload msg)))" if "pr = Inr n" for n
        using pp that
        by (auto simp add: ParsePiece_def Let_def split: if_splits)
      show ?thesis
        using assms cr rd Inr Some pp size
        by (auto simp add: ReadMessage_def Let_def MsgPiece_def MsgChoke_def MsgUnchoke_def
            MsgHave_def split: sum.splits if_splits)
    qed
  qed
qed


lemma accounted_Received:
  assumes acc: "accounted pw answered s" and rm: "ReadMessage s = (None, s')"
    and sol: "solicited pw answered s ((Received, s') # tr)"
  shows "\<exists>answered'. accounted pw answered' s' \<and> solicited pw answered' s' tr"
proof -
  note eff = ReadMessage_effect [OF rm]
  have same: "accounted pw answered s'"
    if "Downloaded s' = Downloaded s" "Backlog s' = Backlog s"
    using that acc eff by (simp add: accounted_def)
  show ?thesis
  proof (cases "fst (Read (inbound (Conn (Client s))))")
    case (Inl err)
    then show ?thesis using eff sol same by auto
  next
    case (Inr mo)
    show ?thesis
    proof (cases mo)
      case None
      then show ?thesis using eff sol same Inr by auto
    next
      case (Some msg)
      show ?thesis
      proof (cases "Id msg = MsgPiece")
        case False
        then show ?thesis using eff sol same Inr Some by auto
      next
        case True
        define b where "b = int (be_value (take 4 (drop 4 (Payload msg))))"
        define n where "n = int (length (drop 8 (Payload msg)))"
        have s: "b mod MaxBlockSize = 0" "b < Requested s" "n = block_size pw b"
          "b \<notin> set answered" "solicited pw (b # answered) s' tr"
          using sol Inr Some True by (simp_all add: Let_def b_def n_def)
        have b0: "0 \<le> b" by (simp add: b_def)
        have e: "Requested s' = Requested s" "Downloaded s' = Downloaded s + n"
          "Backlog s' = Backlog s - 1"
          using eff Inr Some True by (simp_all add: n_def)
        have old: "0 \<le> Requested s" "Requested s \<le> Length_pw pw"
          "Requested s mod MaxBlockSize = 0 \<or> Requested s = Length_pw pw"
          "(\<Sum>b \<in> requested_blocks (Requested s). block_size pw b) = Requested s"
          "distinct answered" "set answered \<subseteq> requested_blocks (Requested s)"
          "Downloaded s = (\<Sum>b \<in> set answered. block_size pw b)"
          "Backlog s = int (card (requested_blocks (Requested s))) - int (length answered)"
          using acc by (simp_all add: accounted_def)
        have mem: "b \<in> requested_blocks (Requested s)"
          using s b0 by (simp add: requested_blocks_def)
        have sum: "(\<Sum>x \<in> set (b # answered). block_size pw x) = Downloaded s + n"
          using s(3,4) old(7) by simp
        have "accounted pw (b # answered) s'"
          unfolding accounted_def e
          using old mem s(4) sum by simp
        then show ?thesis using s(5) by blast
      qed
    qed
  qed
qed

lemma download_loop_accounted:
  "accounted pw answered s \<Longrightarrow> solicited pw answered s (snd (snd (download_loop pw s))) \<Longrightarrow>
   \<forall>entry \<in> set (snd (snd (download_loop pw s))).
      Downloaded (snd entry) \<le> Requested (snd entry) \<and> 0 \<le> Backlog (snd entry)"
proof (induction pw s arbitrary: answered rule: download_loop.induct)
  case (1 pw state)
  show ?case
  proof (cases "Downloaded state < Length_pw pw")
    case False
    then have "download_loop pw state = (None, state, [])"
      by (subst download_loop.simps) simp
    then show ?thesis by simp
  next
    case True
    obtain x xa ya where rl:
      "(if \<not> Choked (Client state) then request_loop pw state else (None, state, [])) = (x, xa, ya)"
      by (metis prod_cases3)
    have after: "accounted pw answered xa \<and> (\<forall>entry \<in> set ya. accounted pw answered (snd entry))"
      and sent: "\<forall>entry \<in> set ya. fst entry = Sent"
      and final: "x = None \<longrightarrow> xa = (if ya = [] then state else snd (last ya))"
    proof -
      show "accounted pw answered xa \<and> (\<forall>entry \<in> set ya. accounted pw answered (snd entry))"
      proof (cases "Choked (Client state)")
        case True
        then show ?thesis using rl "1.prems" by auto
      next
        case False
        then have "request_loop pw state = (x, xa, ya)" using rl by simp
        then show ?thesis using request_loop_accounted [OF "1.prems"(1)] by simp
      qed
      show "\<forall>entry \<in> set ya. fst entry = Sent"
      proof (cases "Choked (Client state)")
        case True
        then show ?thesis using rl by auto
      next
        case False
        then have "request_loop pw state = (x, xa, ya)" using rl by simp
        then show ?thesis using request_loop_trace [of pw state] by simp
      qed
      show "x = None \<longrightarrow> xa = (if ya = [] then state else snd (last ya))"
      proof (cases "Choked (Client state)")
        case True
        then show ?thesis using rl by auto
      next
        case False
        then have eq: "request_loop pw state = (x, xa, ya)" using rl by simp
        have "fst (request_loop pw state) = None \<longrightarrow>
          fst (snd (request_loop pw state))
            = (if snd (snd (request_loop pw state)) = [] then state
               else snd (last (snd (snd (request_loop pw state)))))"
          using request_loop_trace [of pw state] by (rule conjunct2)
        then show ?thesis unfolding eq by (simp only: fst_conv snd_conv)
      qed
    qed
    have ya_ok: "\<forall>entry \<in> set ya.
        Downloaded (snd entry) \<le> Requested (snd entry) \<and> 0 \<le> Backlog (snd entry)"
      using after accounted_bounds by blast
    obtain xb yb where rm: "ReadMessage xa = (xb, yb)"
      by (cases "ReadMessage xa") auto
    have unf: "download_loop pw state =
      (case x of Some err \<Rightarrow> (Some err, xa, ya)
       | None \<Rightarrow> (case xb of Some err \<Rightarrow> (Some err, yb, ya)
           | None \<Rightarrow> (case download_loop pw yb of
                (err, final, tr2) \<Rightarrow> (err, final, ya @ (Received, yb) # tr2))))"
      apply (subst download_loop.simps)
      apply (simp only: True if_True rl prod.case)
      apply (cases x)
       apply (simp_all add: rm)
      done
    show ?thesis
    proof (cases x)
      case (Some err)
      then show ?thesis using ya_ok by (simp add: unf)
    next
      case None
      note xNone = this
      show ?thesis
      proof (cases xb)
        case (Some err)
        then show ?thesis using ya_ok xNone by (simp add: unf)
      next
        case None
        define tr2 where "tr2 = snd (snd (download_loop pw yb))"
        have tr: "snd (snd (download_loop pw state)) = ya @ (Received, yb) # tr2"
          using xNone None by (simp add: unf tr2_def split: prod.splits)
        have "solicited pw answered state (ya @ (Received, yb) # tr2)"
          using "1.prems"(2) by (simp add: tr)
        then have "solicited pw answered xa ((Received, yb) # tr2)"
          using solicited_Sent_prefix [OF sent, of pw answered state "(Received, yb) # tr2"]
            final xNone by simp
        with after rm None obtain answered' where
          acc': "accounted pw answered' yb" and sol': "solicited pw answered' yb tr2"
          using accounted_Received by blast
        have "\<forall>entry \<in> set tr2.
            Downloaded (snd entry) \<le> Requested (snd entry) \<and> 0 \<le> Backlog (snd entry)"
          unfolding tr2_def
          using "1.IH" [OF True rl [symmetric] xNone refl rm [symmetric] None acc']
            sol' by (simp add: tr2_def)
        then show ?thesis
          using ya_ok accounted_bounds [OF acc'] by (auto simp add: tr)
      qed
    qed
  qed
qed

lemma accounted_initial:
  "0 \<le> Length_pw pw \<Longrightarrow>
   accounted pw [] \<lparr>Index = i, Client = c, Buf = b, Downloaded = 0, Requested = 0, Backlog = 0\<rparr>"
proof -
  have "requested_blocks 0 = {}" by (auto simp add: requested_blocks_def)
  then show ?thesis if "0 \<le> Length_pw pw" using that by (simp add: accounted_def)
qed

lemma attemptDownloadPiece_solicited:
  "all_solicited pw (snd (snd (attemptDownloadPiece torrentClient pw))) \<longrightarrow>
    (\<forall>entry \<in> set (snd (snd (attemptDownloadPiece torrentClient pw))).
       Downloaded (snd entry) \<le> Requested (snd entry) \<and> 0 \<le> Backlog (snd entry))"
proof (cases "Length_pw pw < 0")
  case True
  then show ?thesis by (simp add: attemptDownloadPiece_def)
next
  case False
  define state where "state = \<lparr>Index = Index_pw pw, Client = torrentClient,
                     Buf = replicate (nat (Length_pw pw)) 0,
                     Downloaded = 0, Requested = 0, Backlog = 0\<rparr>"
  have acc: "accounted pw [] state"
    unfolding state_def using False by (intro accounted_initial) simp
  have tr: "snd (snd (attemptDownloadPiece torrentClient pw))
      = (Start, state) # snd (snd (download_loop pw state))"
    using False
    by (simp add: attemptDownloadPiece_def Let_def state_def [symmetric]
        split: prod.splits option.splits)
  show ?thesis
  proof
    assume "all_solicited pw (snd (snd (attemptDownloadPiece torrentClient pw)))"
    then have "solicited pw [] state (snd (snd (download_loop pw state)))"
      by (simp add: tr all_solicited_def)
    from download_loop_accounted [OF acc this] accounted_bounds [OF acc]
    show "\<forall>entry \<in> set (snd (snd (attemptDownloadPiece torrentClient pw))).
       Downloaded (snd entry) \<le> Requested (snd entry) \<and> 0 \<le> Backlog (snd entry)"
      by (simp add: tr)
  qed
qed

text \<open>
  C1. During every download attempt, whatever bytes the peer sends, every progress
  record the attempt goes through has \<open>0 \<le> downloaded\<close>,
  \<open>0 \<le> requested \<le> piece length\<close> and \<open>backlog \<le> MaxBacklog = 8\<close>, and every request
  is written while the session is not choked. When every \<^verbatim>\<open>piece\<close> message the peer
  delivers answers a request that was sent and not yet answered, every record also has
  \<open>downloaded \<le> requested\<close> and \<open>0 \<le> backlog\<close>.
\<close>

theorem attemptDownloadPiece_invariant:
  "(\<forall>entry \<in> set (snd (snd (attemptDownloadPiece torrentClient pw))).
      0 \<le> Downloaded (snd entry) \<and> 0 \<le> Requested (snd entry)
      \<and> Requested (snd entry) \<le> Length_pw pw \<and> Backlog (snd entry) \<le> 8
      \<and> (fst entry = Sent \<longrightarrow> \<not> Choked (Client (snd entry))))
   \<and> (all_solicited pw (snd (snd (attemptDownloadPiece torrentClient pw))) \<longrightarrow>
        (\<forall>entry \<in> set (snd (snd (attemptDownloadPiece torrentClient pw))).
           Downloaded (snd entry) \<le> Requested (snd entry) \<and> 0 \<le> Backlog (snd entry)))"
  using attemptDownloadPiece_bounds [of torrentClient pw]
    attemptDownloadPiece_solicited [of pw torrentClient]
  by (rule conjI)

theorem attemptDownloadPiece_invariant_witness:
  "fst (snd (snd (attemptDownloadPiece unchoking_client four_byte_piece)) ! 2) = Sent
   \<and> \<not> Choked (Client (snd (snd (snd (attemptDownloadPiece unchoking_client four_byte_piece)) ! 2)))
   \<and> Backlog (snd (snd (snd (attemptDownloadPiece unchoking_client four_byte_piece)) ! 2)) \<le> 8
   \<and> Requested (snd (snd (snd (attemptDownloadPiece unchoking_client four_byte_piece)) ! 2))
        \<le> Length_pw four_byte_piece
   \<and> all_solicited four_byte_piece
        (snd (snd (attemptDownloadPiece unchoking_client four_byte_piece)))
   \<and> Downloaded (snd (snd (snd (attemptDownloadPiece unchoking_client four_byte_piece)) ! 3))
        \<le> Requested (snd (snd (snd (attemptDownloadPiece unchoking_client four_byte_piece)) ! 3))
   \<and> 0 \<le> Backlog (snd (snd (snd (attemptDownloadPiece unchoking_client four_byte_piece)) ! 3))"
proof -
  have len: "3 < length (snd (snd (attemptDownloadPiece unchoking_client four_byte_piece)))"
    by code_simp
  have sent: "fst (snd (snd (attemptDownloadPiece unchoking_client four_byte_piece)) ! 2) = Sent"
    by code_simp
  have sol: "all_solicited four_byte_piece
        (snd (snd (attemptDownloadPiece unchoking_client four_byte_piece)))"
    by code_simp
  from len have "snd (snd (attemptDownloadPiece unchoking_client four_byte_piece)) ! 2
      \<in> set (snd (snd (attemptDownloadPiece unchoking_client four_byte_piece)))"
    and "snd (snd (attemptDownloadPiece unchoking_client four_byte_piece)) ! 3
      \<in> set (snd (snd (attemptDownloadPiece unchoking_client four_byte_piece)))"
    by simp_all
  with attemptDownloadPiece_invariant [of unchoking_client four_byte_piece] sent sol
  show ?thesis by blast
qed

text \<open>
  The claim as stated fails: a peer may send a \<^verbatim>\<open>piece\<close> message that was never
  requested. The session below is choked and has requested nothing; the message is
  accepted, the attempt returns the piece, and the last progress record has
  \<open>downloaded = 4 > requested = 0\<close> and \<open>backlog = -1\<close>.
\<close>

theorem unsolicited_piece_counterexample:
  "fst (attemptDownloadPiece unsolicited_client four_byte_piece) = Inr [1, 2, 3, 4]
   \<and> map counters (snd (snd (attemptDownloadPiece unsolicited_client four_byte_piece)))
       = [(Start, 0, 0, 0, True), (Received, 4, 0, - 1, True)]"
  by code_simp

section \<open>Tracker URL\<close>

lemma unhex_upperhex: "k < 16 \<Longrightarrow> unhex (upperhex k) = Some k"
proof -
  have "list_all (\<lambda>k. unhex (upperhex k) = Some k) [0..<16]"
    by code_simp
  moreover assume "k < 16"
  ultimately show ?thesis by (simp add: list_all_iff)
qed

lemma unreserved_not_special:
  "unreserved c \<Longrightarrow> c \<noteq> CHR ''%'' \<and> c \<noteq> CHR ''+'' \<and> c \<noteq> CHR ''&'' \<and> c \<noteq> CHR ''=''
     \<and> c \<noteq> CHR '';''"
  by (auto simp add: unreserved_def)

lemma upperhex_not_special:
  "k < 16 \<Longrightarrow> upperhex k \<noteq> CHR ''&'' \<and> upperhex k \<noteq> CHR ''='' \<and> upperhex k \<noteq> CHR '';''"
proof -
  have "list_all (\<lambda>k. upperhex k \<noteq> CHR ''&'' \<and> upperhex k \<noteq> CHR ''='' \<and> upperhex k \<noteq> CHR '';'')
      [0..<16]"
    by code_simp
  moreover assume "k < 16"
  ultimately show ?thesis by (simp add: list_all_iff)
qed

lemma of_char_div_16: "(of_char c :: nat) div 16 < 16"
proof -
  have "(of_char c :: nat) < 256" by simp
  then show ?thesis by linarith
qed

lemma QueryUnescape_escape_char:
  "QueryUnescape (escape_char c @ t) = map_option ((#) c) (QueryUnescape t)"
proof (cases "c = CHR '' ''")
  case True
  then show ?thesis by (simp add: escape_char_def)
next
  case False
  note nsp = this
  show ?thesis
  proof (cases "unreserved c")
    case True
    then show ?thesis using nsp unreserved_not_special [of c] by (simp add: escape_char_def)
  next
    case False
    have "char_of (of_char c div 16 * 16 + of_char c mod 16 :: nat) = c"
      by simp
    then show ?thesis
      using nsp False of_char_div_16 [of c]
      by (simp add: escape_char_def unhex_upperhex)
  qed
qed

lemma QueryUnescape_QueryEscape_append:
  "QueryUnescape (QueryEscape s @ t) = map_option ((@) s) (QueryUnescape t)"
proof (induction s)
  case Nil
  then show ?case by (simp add: QueryEscape_def option.map_ident)
next
  case (Cons c s)
  have "QueryUnescape (QueryEscape (c # s) @ t) = QueryUnescape (escape_char c @ (QueryEscape s @ t))"
    by (simp add: QueryEscape_def)
  also have "\<dots> = map_option ((#) c) (QueryUnescape (QueryEscape s @ t))"
    by (rule QueryUnescape_escape_char)
  finally show ?case using Cons by (simp add: option.map_comp comp_def)
qed

lemma QueryUnescape_QueryEscape: "QueryUnescape (QueryEscape s) = Some s"
  using QueryUnescape_QueryEscape_append [of s "[]"] by simp

lemma escape_char_safe:
  "x \<in> set (escape_char c) \<Longrightarrow> x \<noteq> CHR ''&'' \<and> x \<noteq> CHR ''='' \<and> x \<noteq> CHR '';''"
  using unreserved_not_special [of c] upperhex_not_special [of "of_char c div 16"]
    upperhex_not_special [of "of_char c mod 16"] of_char_div_16 [of c]
  by (auto simp add: escape_char_def split: if_splits)

lemma QueryEscape_safe:
  "x \<in> set (QueryEscape s) \<Longrightarrow> x \<noteq> CHR ''&'' \<and> x \<noteq> CHR ''='' \<and> x \<noteq> CHR '';''"
  using escape_char_safe by (auto simp add: QueryEscape_def)

lemma decimal_digits: "set (decimal u) \<subseteq> set ''0123456789''"
proof (induction u rule: decimal.induct)
  case (1 u)
  have d: "''0123456789'' ! n \<in> set ''0123456789''" if "n < 10" for n
    using that by (intro nth_mem) simp
  show ?case
  proof (cases "u < 10")
    case True
    then have "nat u < 10" by simp
    then show ?thesis using True d [of "nat u"] by (subst decimal.simps) simp
  next
    case False
    have "nat (u mod 10) < 10" by simp
    then show ?thesis
      using False 1 d [of "nat (u mod 10)"] by (subst decimal.simps) simp
  qed
qed

lemma QueryEscape_digits: "set s \<subseteq> set ''0123456789'' \<Longrightarrow> QueryEscape s = s"
proof (induction s)
  case Nil
  then show ?case by (simp add: QueryEscape_def)
next
  case (Cons c s)
  then have "c \<in> set ''0123456789''" by simp
  then have "escape_char c = [c]"
    by (auto simp add: escape_char_def unreserved_def)
  then show ?case using Cons by (simp add: QueryEscape_def)
qed

lemma Itoa_digits: "0 \<le> i \<Longrightarrow> set (Itoa i) \<subseteq> set ''0123456789''"
  using decimal_digits by (simp add: Itoa_def)

lemma Values_Encode_params:
  "Values_Encode
     [(''info_hash'', [ih]), (''peer_id'', [pid]), (''port'', [port]), (''uploaded'', [''0'']),
      (''downloaded'', [''0'']), (''compact'', [''1'']), (''left'', [left])]
   = ''compact=1&downloaded=0&info_hash='' @ QueryEscape ih @ ''&left='' @ QueryEscape left
       @ ''&peer_id='' @ QueryEscape pid @ ''&port='' @ QueryEscape port @ ''&uploaded=0''"
proof -
  have keys: "sort [''info_hash'', ''peer_id'', ''port'', ''uploaded'', ''downloaded'', ''compact'', ''left'']
      = [''compact'', ''downloaded'', ''info_hash'', ''left'', ''peer_id'', ''port'', ''uploaded'']"
    by code_simp
  have esc: "QueryEscape ''compact'' = ''compact''" "QueryEscape ''downloaded'' = ''downloaded''"
    "QueryEscape ''info_hash'' = ''info_hash''" "QueryEscape ''left'' = ''left''"
    "QueryEscape ''peer_id'' = ''peer_id''" "QueryEscape ''port'' = ''port''"
    "QueryEscape ''uploaded'' = ''uploaded''" "QueryEscape ''0'' = ''0''" "QueryEscape ''1'' = ''1''"
    by code_simp+
  show ?thesis
    unfolding Values_Encode_def
    by (simp add: keys esc)
qed

lemma Cut_found: "sep \<notin> set a \<Longrightarrow> Cut sep (a @ sep # b) = (a, b)"
proof -
  assume "sep \<notin> set a"
  then have all: "\<And>x. x \<in> set a \<Longrightarrow> x \<noteq> sep" by auto
  have "takeWhile (\<lambda>x. x \<noteq> sep) (a @ sep # b) = a"
    using all by (simp add: takeWhile_append2)
  moreover have "dropWhile (\<lambda>x. x \<noteq> sep) (a @ sep # b) = sep # b"
    using all by (simp add: dropWhile_append2)
  ultimately show ?thesis by (simp add: Cut_def)
qed

lemma Cut_absent: "sep \<notin> set a \<Longrightarrow> Cut sep a = (a, [])"
proof -
  assume "sep \<notin> set a"
  then have all: "\<And>x. x \<in> set a \<Longrightarrow> x \<noteq> sep" by auto
  have t: "takeWhile (\<lambda>x. x \<noteq> sep) a = a" using all by simp
  have d: "dropWhile (\<lambda>x. x \<noteq> sep) a = []" using all by (simp add: dropWhile_eq_Nil_conv)
  show ?thesis unfolding Cut_def by (simp only: t d drop_Nil)
qed

lemma ParseQuery_pair:
  assumes "CHR ''&'' \<notin> set key" "CHR '';'' \<notin> set key" "CHR ''='' \<notin> set key" "key \<noteq> []"
    and "CHR ''&'' \<notin> set val" "CHR '';'' \<notin> set val"
    and "QueryUnescape key = Some k" "QueryUnescape val = Some v"
  shows "ParseQuery (key @ CHR ''='' # val @ CHR ''&'' # rest) = map_option ((#) (k, v)) (ParseQuery rest)"
    and "ParseQuery (key @ CHR ''='' # val) = Some [(k, v)]"
proof -
  have seg: "CHR ''&'' \<notin> set (key @ CHR ''='' # val)" "CHR '';'' \<notin> set (key @ CHR ''='' # val)"
    using assms by auto
  have c1: "Cut (CHR ''&'') ((key @ CHR ''='' # val) @ CHR ''&'' # rest) = (key @ CHR ''='' # val, rest)"
    using seg(1) by (rule Cut_found)
  have c2: "Cut (CHR ''='') (key @ CHR ''='' # val) = (key, val)"
    using assms(3) by (rule Cut_found)
  have c3: "Cut (CHR ''&'') (key @ CHR ''='' # val) = (key @ CHR ''='' # val, [])"
    using seg(1) by (rule Cut_absent)
  have e: "ParseQuery [] = Some []" by (simp add: ParseQuery.simps)
  show "ParseQuery (key @ CHR ''='' # val @ CHR ''&'' # rest) = map_option ((#) (k, v)) (ParseQuery rest)"
    using c1 c2 seg assms(7,8) by (subst ParseQuery.simps) simp
  show "ParseQuery (key @ CHR ''='' # val) = Some [(k, v)]"
    using c3 c2 seg assms(7,8) e by (subst ParseQuery.simps) simp
qed


lemma ParseQuery_escaped_pair:
  assumes "CHR ''&'' \<notin> set key" "CHR '';'' \<notin> set key" "CHR ''='' \<notin> set key" "key \<noteq> []"
    and "QueryUnescape key = Some k"
  shows "ParseQuery (key @ CHR ''='' # QueryEscape v @ CHR ''&'' # rest)
           = map_option ((#) (k, v)) (ParseQuery rest)"
    and "ParseQuery (key @ CHR ''='' # QueryEscape v) = Some [(k, v)]"
proof -
  have a: "CHR ''&'' \<notin> set (QueryEscape v)" and b: "CHR '';'' \<notin> set (QueryEscape v)"
    using QueryEscape_safe [of _ v] by blast+
  show "ParseQuery (key @ CHR ''='' # QueryEscape v @ CHR ''&'' # rest)
           = map_option ((#) (k, v)) (ParseQuery rest)"
    using assms a b QueryUnescape_QueryEscape [of v] by (intro ParseQuery_pair(1)) simp_all
  show "ParseQuery (key @ CHR ''='' # QueryEscape v) = Some [(k, v)]"
    using assms a b QueryUnescape_QueryEscape [of v] by (intro ParseQuery_pair(2)) simp_all
qed

lemma ParseQuery_params:
  "ParseQuery
     (''compact'' @ CHR ''='' # QueryEscape v1 @ CHR ''&'' #
      ''downloaded'' @ CHR ''='' # QueryEscape v2 @ CHR ''&'' #
      ''info_hash'' @ CHR ''='' # QueryEscape v3 @ CHR ''&'' #
      ''left'' @ CHR ''='' # QueryEscape v4 @ CHR ''&'' #
      ''peer_id'' @ CHR ''='' # QueryEscape v5 @ CHR ''&'' #
      ''port'' @ CHR ''='' # QueryEscape v6 @ CHR ''&'' #
      ''uploaded'' @ CHR ''='' # QueryEscape v7)
   = Some [(''compact'', v1), (''downloaded'', v2), (''info_hash'', v3), (''left'', v4),
           (''peer_id'', v5), (''port'', v6), (''uploaded'', v7)]"
proof -
  have u: "QueryUnescape ''compact'' = Some ''compact''"
    "QueryUnescape ''downloaded'' = Some ''downloaded''"
    "QueryUnescape ''info_hash'' = Some ''info_hash''"
    "QueryUnescape ''left'' = Some ''left''"
    "QueryUnescape ''peer_id'' = Some ''peer_id''"
    "QueryUnescape ''port'' = Some ''port''"
    "QueryUnescape ''uploaded'' = Some ''uploaded''"
    by simp_all
  have p7: "ParseQuery (''uploaded'' @ CHR ''='' # QueryEscape v7) = Some [(''uploaded'', v7)]"
    by (rule ParseQuery_escaped_pair(2)) (simp_all add: u)
  have p6: "ParseQuery (''port'' @ CHR ''='' # QueryEscape v6 @ CHR ''&'' # rest)
      = map_option ((#) (''port'', v6)) (ParseQuery rest)" for rest
    by (rule ParseQuery_escaped_pair(1)) (simp_all add: u)
  have p5: "ParseQuery (''peer_id'' @ CHR ''='' # QueryEscape v5 @ CHR ''&'' # rest)
      = map_option ((#) (''peer_id'', v5)) (ParseQuery rest)" for rest
    by (rule ParseQuery_escaped_pair(1)) (simp_all add: u)
  have p4: "ParseQuery (''left'' @ CHR ''='' # QueryEscape v4 @ CHR ''&'' # rest)
      = map_option ((#) (''left'', v4)) (ParseQuery rest)" for rest
    by (rule ParseQuery_escaped_pair(1)) (simp_all add: u)
  have p3: "ParseQuery (''info_hash'' @ CHR ''='' # QueryEscape v3 @ CHR ''&'' # rest)
      = map_option ((#) (''info_hash'', v3)) (ParseQuery rest)" for rest
    by (rule ParseQuery_escaped_pair(1)) (simp_all add: u)
  have p2: "ParseQuery (''downloaded'' @ CHR ''='' # QueryEscape v2 @ CHR ''&'' # rest)
      = map_option ((#) (''downloaded'', v2)) (ParseQuery rest)" for rest
    by (rule ParseQuery_escaped_pair(1)) (simp_all add: u)
  have p1: "ParseQuery (''compact'' @ CHR ''='' # QueryEscape v1 @ CHR ''&'' # rest)
      = map_option ((#) (''compact'', v1)) (ParseQuery rest)" for rest
    by (rule ParseQuery_escaped_pair(1)) (simp_all add: u)
  show ?thesis
    by (simp only: p1 p2 p3 p4 p5 p6 p7 option.map)
qed

text \<open>
  C8. When the announce URL parses, the URL that \<^verbatim>\<open>BuildTrackerUrl\<close> returns is the
  parsed URL with its query replaced: the query holds each of \<^verbatim>\<open>compact\<close>,
  \<^verbatim>\<open>downloaded\<close>, \<^verbatim>\<open>info_hash\<close>, \<^verbatim>\<open>left\<close>, \<^verbatim>\<open>peer_id\<close>, \<^verbatim>\<open>port\<close> and \<^verbatim>\<open>uploaded\<close>
  exactly once, the info-hash and the peer id are escaped byte for byte and read back as
  the raw bytes, and the numbers are in decimal. For the example of the spec the result
  is the URL the spec gives.
\<close>

theorem BuildTrackerUrl_query:
  "(url_Parse (Announce torrFile) = Some base \<longrightarrow>
      (\<exists>query.
         BuildTrackerUrl url_Parse torrFile peerId port
           = (before_query base @ CHR ''?'' # query @ after_query base, None)
         \<and> query = ''compact=1&downloaded=0&info_hash=''
                     @ QueryEscape (string_of_bytes (InfoHash_tf torrFile))
                     @ ''&left='' @ Itoa (uint (Length_tf torrFile))
                     @ ''&peer_id='' @ QueryEscape (string_of_bytes peerId)
                     @ ''&port='' @ Itoa (uint port) @ ''&uploaded=0''
         \<and> ParseQuery query
           = Some [(''compact'', ''1''), (''downloaded'', ''0''),
                   (''info_hash'', string_of_bytes (InfoHash_tf torrFile)),
                   (''left'', Itoa (uint (Length_tf torrFile))),
                   (''peer_id'', string_of_bytes peerId),
                   (''port'', Itoa (uint port)), (''uploaded'', ''0'')]))
   \<and> (url_Parse (Announce debian_torrent) = Some debian_base \<longrightarrow>
        BuildTrackerUrl url_Parse debian_torrent debian_peer_id 6789 = (debian_url, None))"
proof (intro conjI impI)
  assume parse: "url_Parse (Announce torrFile) = Some base"
  define ih where "ih = string_of_bytes (InfoHash_tf torrFile)"
  define pid where "pid = string_of_bytes peerId"
  define left where "left = Itoa (uint (Length_tf torrFile))"
  define prt where "prt = Itoa (uint port)"
  define query where "query = ''compact=1&downloaded=0&info_hash='' @ QueryEscape ih
       @ ''&left='' @ QueryEscape left @ ''&peer_id='' @ QueryEscape pid @ ''&port=''
       @ QueryEscape prt @ ''&uploaded=0''"
  have el: "QueryEscape left = left" and ep: "QueryEscape prt = prt"
    using Itoa_digits [of "uint (Length_tf torrFile)"] Itoa_digits [of "uint port"]
    by (simp_all add: left_def prt_def QueryEscape_digits)
  have e01: "QueryEscape ''0'' = ''0''" "QueryEscape ''1'' = ''1''" by code_simp+
  have ne: "query \<noteq> []" by (simp add: query_def)
  have enc: "Values_Encode
     [(''info_hash'', [ih]), (''peer_id'', [pid]), (''port'', [prt]), (''uploaded'', [''0'']),
      (''downloaded'', [''0'']), (''compact'', [''1'']), (''left'', [left])] = query"
    by (simp add: Values_Encode_params query_def)
  have build: "BuildTrackerUrl url_Parse torrFile peerId port
      = (before_query base @ CHR ''?'' # query @ after_query base, None)"
    unfolding BuildTrackerUrl_def Let_def parse option.case
    unfolding ih_def [symmetric] pid_def [symmetric] left_def [symmetric] prt_def [symmetric]
    unfolding enc
    using ne by (simp add: URL_String_def)
  have shape: "query =
      ''compact'' @ CHR ''='' # QueryEscape ''1'' @ CHR ''&'' #
      ''downloaded'' @ CHR ''='' # QueryEscape ''0'' @ CHR ''&'' #
      ''info_hash'' @ CHR ''='' # QueryEscape ih @ CHR ''&'' #
      ''left'' @ CHR ''='' # QueryEscape left @ CHR ''&'' #
      ''peer_id'' @ CHR ''='' # QueryEscape pid @ CHR ''&'' #
      ''port'' @ CHR ''='' # QueryEscape prt @ CHR ''&'' #
      ''uploaded'' @ CHR ''='' # QueryEscape ''0''"
    by (simp add: query_def e01)
  have parsed: "ParseQuery query
      = Some [(''compact'', ''1''), (''downloaded'', ''0''), (''info_hash'', ih), (''left'', left),
              (''peer_id'', pid), (''port'', prt), (''uploaded'', ''0'')]"
    by (subst shape) (rule ParseQuery_params)
  have "query = ''compact=1&downloaded=0&info_hash='' @ QueryEscape ih
       @ ''&left='' @ left @ ''&peer_id='' @ QueryEscape pid @ ''&port='' @ prt @ ''&uploaded=0''"
    by (simp add: query_def el ep)
  with build parsed
  show "\<exists>query.
         BuildTrackerUrl url_Parse torrFile peerId port
           = (before_query base @ CHR ''?'' # query @ after_query base, None)
         \<and> query = ''compact=1&downloaded=0&info_hash=''
                     @ QueryEscape (string_of_bytes (InfoHash_tf torrFile))
                     @ ''&left='' @ Itoa (uint (Length_tf torrFile))
                     @ ''&peer_id='' @ QueryEscape (string_of_bytes peerId)
                     @ ''&port='' @ Itoa (uint port) @ ''&uploaded=0''
         \<and> ParseQuery query
           = Some [(''compact'', ''1''), (''downloaded'', ''0''),
                   (''info_hash'', string_of_bytes (InfoHash_tf torrFile)),
                   (''left'', Itoa (uint (Length_tf torrFile))),
                   (''peer_id'', string_of_bytes peerId),
                   (''port'', Itoa (uint port)), (''uploaded'', ''0'')]"
    unfolding ih_def pid_def left_def prt_def by blast
next
  assume parse: "url_Parse (Announce debian_torrent) = Some debian_base"
  have "URL_String (debian_base\<lparr>RawQuery := Values_Encode
           [(''info_hash'', [string_of_bytes (InfoHash_tf debian_torrent)]),
            (''peer_id'', [string_of_bytes debian_peer_id]),
            (''port'', [Itoa (uint (6789 :: uint16))]),
            (''uploaded'', [''0'']),
            (''downloaded'', [''0'']),
            (''compact'', [''1'']),
            (''left'', [Itoa (uint (Length_tf debian_torrent))])]\<rparr>) = debian_url"
    by code_simp
  then show "BuildTrackerUrl url_Parse debian_torrent debian_peer_id 6789 = (debian_url, None)"
    unfolding BuildTrackerUrl_def Let_def parse option.case by simp
qed

theorem BuildTrackerUrl_query_witness:
  "BuildTrackerUrl plain_url_Parse debian_torrent debian_peer_id 6789 = (debian_url, None)"
proof -
  have "plain_url_Parse (Announce debian_torrent) = Some debian_base"
    by (simp add: plain_url_Parse_def debian_torrent_def debian_base_def)
  with BuildTrackerUrl_query [of plain_url_Parse debian_torrent]
  show ?thesis by blast
qed

end
